theory Spec2Isabelle
  imports Main
begin

section \<open>JavaScript strings\<close>

text \<open>
  A JavaScript string is a sequence of UTF-16 code units; the model keeps each code unit
  as a natural number, so that the non-ASCII literals of the source (the Chinese
  tokens of \<open>runTaskkill\<close>) and the Unicode white space of \<open>trim\<close> and \<open>\s\<close> are
  ordinary values. \<open>ascii\<close> writes an ASCII literal of the source.
\<close>

type_synonym jstring = "nat list"

definition ascii :: "string \<Rightarrow> jstring" where
  "ascii s = map of_char s"

text \<open>\<open>String.prototype.toLowerCase\<close> and \<open>toUpperCase\<close>. The ASCII letters are mapped,
  and so is every code unit outside ASCII whose image has an ASCII unit in it: U+0130
  and U+212A (the Kelvin sign) in \<open>toLowerCase\<close>; U+00DF, U+0131, U+0149, U+017F,
  U+01F0, U+1E96 to U+1E9A and U+FB00 to U+FB06 in \<open>toUpperCase\<close>. Any other unit
  outside ASCII is kept as it is, where Unicode may give it another image outside
  ASCII: the program compares the results with ASCII text only (\<open>===\<close>, \<open>startsWith\<close>,
  \<open>endsWith\<close>, \<open>includes\<close>, \<open>test\<close>), which cannot tell the one from the other.\<close>

definition lowerUnits :: "nat \<Rightarrow> jstring" where
  "lowerUnits c =
     (if 65 \<le> c \<and> c \<le> 90 then [c + 32]
      else if c = 304 then [105, 775]
      else if c = 8490 then [107]
      else [c])"

definition upperUnits :: "nat \<Rightarrow> jstring" where
  "upperUnits c =
     (if 97 \<le> c \<and> c \<le> 122 then [c - 32]
      else if c = 223 then [83, 83]
      else if c = 305 then [73]
      else if c = 329 then [700, 78]
      else if c = 383 then [83]
      else if c = 496 then [74, 780]
      else if c = 7830 then [72, 817]
      else if c = 7831 then [84, 776]
      else if c = 7832 then [87, 778]
      else if c = 7833 then [89, 778]
      else if c = 7834 then [65, 702]
      else if c = 64256 then [70, 70]
      else if c = 64257 then [70, 73]
      else if c = 64258 then [70, 76]
      else if c = 64259 then [70, 70, 73]
      else if c = 64260 then [70, 70, 76]
      else if c = 64261 \<or> c = 64262 then [83, 84]
      else [c])"

definition toLowerCase :: "jstring \<Rightarrow> jstring" where
  "toLowerCase s = concat (map lowerUnits s)"

definition toUpperCase :: "jstring \<Rightarrow> jstring" where
  "toUpperCase s = concat (map upperUnits s)"

text \<open>\<open>startsWith\<close>, \<open>endsWith\<close> and \<open>includes\<close> of \<open>String.prototype\<close>.\<close>

fun startsWith :: "jstring \<Rightarrow> jstring \<Rightarrow> bool" where
  "startsWith s [] = True"
| "startsWith [] (p # ps) = False"
| "startsWith (c # cs) (p # ps) = (c = p \<and> startsWith cs ps)"

definition endsWith :: "jstring \<Rightarrow> jstring \<Rightarrow> bool" where
  "endsWith s suf = startsWith (rev s) (rev suf)"

fun includes_str :: "jstring \<Rightarrow> jstring \<Rightarrow> bool" where
  "includes_str [] pat = (pat = [])"
| "includes_str (c # cs) pat = (startsWith (c # cs) pat \<or> includes_str cs pat)"

text \<open>The white space of \<open>trim\<close> and of the regular expression class \<open>\s\<close>
  (WhiteSpace and LineTerminator of ECMAScript), and the digits of \<open>\d\<close>.\<close>

definition isSpace :: "nat \<Rightarrow> bool" where
  "isSpace c = (c \<in> {9, 10, 11, 12, 13, 32, 160, 5760, 8232, 8233, 8239, 8287, 12288, 65279}
                \<or> (8192 \<le> c \<and> c \<le> 8202))"

definition isDigit :: "nat \<Rightarrow> bool" where
  "isDigit c = (48 \<le> c \<and> c \<le> 57)"

definition isLineTerminator :: "nat \<Rightarrow> bool" where
  "isLineTerminator c = (c \<in> {10, 13, 8232, 8233})"

definition trim :: "jstring \<Rightarrow> jstring" where
  "trim s = rev (dropWhile isSpace (rev (dropWhile isSpace s)))"

text \<open>\<open>s.split(/\r?\n/)\<close>: the text between line feeds, a carriage return before a
  line feed belonging to the separator.\<close>

fun splitLines_from :: "jstring \<Rightarrow> jstring \<Rightarrow> jstring list" where
  "splitLines_from cur [] = [rev cur]"
| "splitLines_from cur [c] = (if c = 10 then [rev cur, []] else [rev (c # cur)])"
| "splitLines_from cur (c # d # cs) =
     (if c = 10 then rev cur # splitLines_from [] (d # cs)
      else if c = 13 \<and> d = 10 then rev cur # splitLines_from [] cs
      else splitLines_from (c # cur) (d # cs))"

definition splitLines :: "jstring \<Rightarrow> jstring list" where
  "splitLines s = splitLines_from [] s"

text \<open>\<open>s.split(/\s+/)\<close>: the fields between maximal runs of white space; a run at
  the start or the end of \<open>s\<close> leaves an empty field there, as in JavaScript. The flag
  says that the scan is inside a run.\<close>

fun splitWs_from :: "bool \<Rightarrow> jstring \<Rightarrow> jstring \<Rightarrow> jstring list" where
  "splitWs_from inRun cur [] = [rev cur]"
| "splitWs_from inRun cur (c # cs) =
     (if isSpace c then
        (if inRun then splitWs_from True [] cs else rev cur # splitWs_from True [] cs)
      else splitWs_from False (c # cur) cs)"

definition splitWs :: "jstring \<Rightarrow> jstring list" where
  "splitWs s = splitWs_from False [] s"

text \<open>\<open>parts.join(' ')\<close>.\<close>

fun joinSp :: "jstring list \<Rightarrow> jstring" where
  "joinSp [] = []"
| "joinSp [p] = p"
| "joinSp (p # q # ps) = p @ 32 # joinSp (q # ps)"

text \<open>\<open>xs[i]\<close>: \<open>undefined\<close> out of range.\<close>

definition at :: "'a list \<Rightarrow> nat \<Rightarrow> 'a option" where
  "at xs i = (if i < length xs then Some (xs ! i) else None)"

text \<open>The numbers that \<open>parseInt\<close> gives: \<open>NaN\<close>, the two infinities, and the doubles
  that are integers, each kept as the integer it is.\<close>

datatype number = NaN | PosInfinity | NegInfinity | Finite int

definition Number_isFinite :: "number \<Rightarrow> bool" where
  "Number_isFinite x = (case x of Finite n \<Rightarrow> True | _ \<Rightarrow> False)"

text \<open>The double of a natural number: the number itself up to 53 bits; beyond, the
  nearest number with 53 significant bits, the even one of two that are as near;
  \<open>None\<close>, for \<open>Infinity\<close>, when that is \<open>2^1024\<close> or more.\<close>

fun bitLength :: "nat \<Rightarrow> nat" where
  "bitLength n = (if n = 0 then 0 else Suc (bitLength (n div 2)))"

declare bitLength.simps [simp del]

definition toDouble :: "nat \<Rightarrow> nat option" where
  "toDouble n =
     (let k = bitLength n in
      if k \<le> 53 then Some n
      else
        (let s = k - 53; q = n div 2 ^ s; r = n mod 2 ^ s; h = 2 ^ (s - 1);
             q' = (if h < r \<or> (r = h \<and> odd q) then q + 1 else q)
         in if 2 ^ 1024 \<le> q' * 2 ^ s then None else Some (q' * 2 ^ s)))"

text \<open>\<open>parseInt(s, 10)\<close>: leading white space is skipped, a sign is read, then the
  longest run of decimal digits, whose value is rounded to a double; \<open>NaN\<close> when there
  is no digit, or when \<open>undefined\<close> (\<open>None\<close>) is given. ECMAScript lets an engine read
  the digits after the twentieth as zeros; the model rounds the exact value, as V8
  does.\<close>

definition digitsValue :: "jstring \<Rightarrow> nat" where
  "digitsValue ds = foldl (\<lambda>a c. 10 * a + (c - 48)) 0 ds"

definition parseDigits :: "bool \<Rightarrow> jstring \<Rightarrow> number" where
  "parseDigits neg s =
     (let ds = takeWhile isDigit s in
      if ds = [] then NaN
      else
        (case toDouble (digitsValue ds) of
           None \<Rightarrow> if neg then NegInfinity else PosInfinity
         | Some v \<Rightarrow> Finite (if neg then - int v else int v)))"

definition parseInt :: "jstring option \<Rightarrow> number" where
  "parseInt u =
     (case u of
        None \<Rightarrow> NaN
      | Some s \<Rightarrow>
          (case dropWhile isSpace s of
             [] \<Rightarrow> NaN
           | c # cs \<Rightarrow>
               if c = 45 then parseDigits True cs
               else if c = 43 then parseDigits False cs
               else parseDigits False (c # cs)))"

text \<open>\<open>String(n)\<close> of an integer: its decimal digits, with a minus sign. (From
  \<open>10^21\<close> on JavaScript writes a number with an exponent, another string that is
  different for every number; the model writes all the digits.)\<close>

fun digitsOf :: "nat \<Rightarrow> jstring" where
  "digitsOf n = (if n < 10 then [48 + n] else digitsOf (n div 10) @ [48 + n mod 10])"

declare digitsOf.simps [simp del]

definition String_of :: "int \<Rightarrow> jstring" where
  "String_of i = (if i < 0 then 45 # digitsOf (nat (- i)) else digitsOf (nat i))"

text \<open>\<open>s.match(re)\<close> and \<open>re.test(s)\<close> of a regular expression without the sticky
  flag try the pattern at every position from the left and stop at the first that
  matches; the pattern is a function from the text at a position to its captures.\<close>

fun firstMatch :: "(jstring \<Rightarrow> 'a option) \<Rightarrow> jstring \<Rightarrow> 'a option" where
  "firstMatch m [] = m []"
| "firstMatch m (c # cs) = (case m (c # cs) of Some r \<Rightarrow> Some r | None \<Rightarrow> firstMatch m cs)"

text \<open>An ASCII literal matched with the \<open>i\<close> flag and without the \<open>u\<close> flag: a unit
  of the text matches a unit of the pattern when \<open>Canonicalize\<close> of ECMAScript gives
  the same unit for both. That is the capital of an ASCII letter, and for a unit
  outside ASCII never an ASCII unit: such a unit matches no unit of an ASCII pattern,
  and the model keeps it as it is.\<close>

definition canonicalize :: "nat \<Rightarrow> nat" where
  "canonicalize c = (if 97 \<le> c \<and> c \<le> 122 then c - 32 else c)"

definition startsWithCI :: "jstring \<Rightarrow> jstring \<Rightarrow> bool" where
  "startsWithCI s pat = startsWith (map canonicalize s) (map canonicalize pat)"

definition includesCI :: "jstring \<Rightarrow> jstring \<Rightarrow> bool" where
  "includesCI s pat = includes_str (map canonicalize s) (map canonicalize pat)"

section \<open>The listener model (\<open>core/types.ts\<close>)\<close>

datatype Protocol = tcp | udp

definition protocolName :: "Protocol \<Rightarrow> jstring" where
  "protocolName p = (case p of tcp \<Rightarrow> ascii ''tcp'' | udp \<Rightarrow> ascii ''udp'')"

record Listener =
  protocol :: Protocol
  port :: int
  pid :: int
  localAddress :: "jstring option"
  processName :: "jstring option"
  command :: "jstring option"
  user :: "jstring option"
  raw :: "jstring option"
  source :: "jstring option"

datatype Platform = win32 | darwin | linux | other

section \<open>The safety classifier (\<open>core/safety.ts\<close>)\<close>

record Protection =
  protected :: bool
  reason :: "jstring option"

definition POSIX_PROTECTED_NAMES :: "jstring list" where
  "POSIX_PROTECTED_NAMES = map ascii
     [''systemd'', ''launchd'', ''init'', ''kernel_task'', ''kthreadd'',
      ''systemd-journald'', ''systemd-logind'', ''sshd'']"

definition WINDOWS_PROTECTED_NAMES :: "jstring list" where
  "WINDOWS_PROTECTED_NAMES = map ascii
     [''system'', ''system idle process'', ''registry'', ''smss.exe'', ''csrss.exe'',
      ''wininit.exe'', ''services.exe'', ''lsass.exe'', ''winlogon.exe'', ''svchost.exe'']"

text \<open>\<open>protectionFor\<close>, with the platform that \<open>platform()\<close> reads from the process as
  a parameter. The two loops return at the first name that matches, always with the
  same verdict, so each is the test that some name matches.\<close>

definition protectionFor :: "Platform \<Rightarrow> Listener \<Rightarrow> Protection" where
  "protectionFor p l =
     (let name = toLowerCase (case processName l of Some n \<Rightarrow> n
                                | None \<Rightarrow> (case command l of Some c \<Rightarrow> c | None \<Rightarrow> []))
      in
      if p \<noteq> win32 \<and> pid l \<le> 1 then
        \<lparr>protected = True, reason = Some (ascii ''pid 1 (system init)'')\<rparr>
      else if p = win32 \<and> (pid l = 0 \<or> pid l = 4) then
        \<lparr>protected = True, reason = Some (ascii ''system process'')\<rparr>
      else if p = win32 \<and>
              list_ex (\<lambda>n. name = n \<or> endsWith name (92 # n) \<or> includes_str name n)
                WINDOWS_PROTECTED_NAMES then
        \<lparr>protected = True, reason = Some (ascii ''critical Windows process'')\<rparr>
      else if p \<noteq> win32 \<and> list_ex (\<lambda>n. name = n \<or> includes_str name n) POSIX_PROTECTED_NAMES then
        \<lparr>protected = True, reason = Some (ascii ''critical system process'')\<rparr>
      else if port l = 22 \<and> includes_str name (ascii ''sshd'') then
        \<lparr>protected = True, reason = Some (ascii ''sshd (avoid locking yourself out)'')\<rparr>
      else \<lparr>protected = False, reason = None\<rparr>)"

section \<open>Deduplication (\<open>utils/strings.ts\<close>, \<open>core/finder/linux.ts\<close>)\<close>

text \<open>\<open>uniqBy\<close>: the loop over \<open>items\<close> with its two variables, the set \<open>seen\<close> of keys
  and the array \<open>out\<close>.\<close>

fun uniqBy_loop :: "('a \<Rightarrow> jstring) \<Rightarrow> jstring set \<times> 'a list \<Rightarrow> 'a list \<Rightarrow> 'a list" where
  "uniqBy_loop key (seen, out) [] = out"
| "uniqBy_loop key (seen, out) (it # items) =
     (let k = key it in
      if k \<in> seen then uniqBy_loop key (seen, out) items
      else uniqBy_loop key (insert k seen, out @ [it]) items)"

definition uniqBy :: "'a list \<Rightarrow> ('a \<Rightarrow> jstring) \<Rightarrow> 'a list" where
  "uniqBy items key = uniqBy_loop key ({}, []) items"

text \<open>The key of a listener, the template string
  \<open>`${l.protocol}:${l.port}:${l.pid}:${l.localAddress ?? ''}`\<close>.\<close>

definition listenerKey :: "Listener \<Rightarrow> jstring" where
  "listenerKey l =
     protocolName (protocol l) @ 58 # String_of (port l) @ 58 # String_of (pid l) @ 58 #
     (case localAddress l of Some a \<Rightarrow> a | None \<Rightarrow> [])"

definition dedupe :: "Listener list \<Rightarrow> Listener list" where
  "dedupe listeners = uniqBy listeners listenerKey"

section \<open>The output parsers (\<open>core/finder/linux.ts\<close>, \<open>core/finder/windows.ts\<close>)\<close>

text \<open>\<open>parseAddrPort\<close>: the regular expression \<open>/:(\d+)$/\<close> matches at a colon that is
  followed by digits up to the end of the token. The result is the pair of \<open>port\<close>
  (\<open>None\<close> for \<open>null\<close>) and \<open>address\<close> (\<open>None\<close> for a missing field).\<close>

definition colonDigitsEnd :: "jstring \<Rightarrow> jstring option" where
  "colonDigitsEnd t =
     (case t of
        [] \<Rightarrow> None
      | c # ds \<Rightarrow> if c = 58 \<and> ds \<noteq> [] \<and> list_all isDigit ds then Some ds else None)"

definition parseAddrPort :: "jstring \<Rightarrow> int option \<times> jstring option" where
  "parseAddrPort token =
     (case firstMatch colonDigitsEnd token of
        None \<Rightarrow> (None, None)
      | Some m1 \<Rightarrow>
          (case parseInt (Some m1) of
             Finite prt \<Rightarrow> (Some prt, Some (take (length token - (length m1 + 1)) token))
           | _ \<Rightarrow> (None, None)))"

text \<open>\<open>parseSsPid\<close>: \<open>/pid=(\d+)/\<close>, the first \<open>pid=\<close> that a digit follows, with all the
  digits after it; \<open>null\<close> (\<open>None\<close>) when \<open>Number.isFinite\<close> does not hold of their
  value.\<close>

definition pidDigits :: "jstring \<Rightarrow> jstring option" where
  "pidDigits t =
     (if startsWith t (ascii ''pid='') then
        (let ds = takeWhile isDigit (drop 4 t) in if ds = [] then None else Some ds)
      else None)"

definition parseSsPid :: "jstring \<Rightarrow> int option" where
  "parseSsPid proc =
     (case firstMatch pidDigits proc of
        None \<Rightarrow> None
      | Some m1 \<Rightarrow> (case parseInt (Some m1) of Finite p \<Rightarrow> Some p | _ \<Rightarrow> None))"

text \<open>\<open>parseSsName\<close>: \<open>/users:\(\("([^"]+)"/\<close>, the text between the first double quote
  after \<open>users:((\<close> and the next one, which must not be empty.\<close>

definition usersName :: "jstring \<Rightarrow> jstring option" where
  "usersName t =
     (if startsWith t (ascii ''users:(('' @ [34]) then
        (let r = drop 9 t; nm = takeWhile (\<lambda>c. c \<noteq> 34) r
         in if nm \<noteq> [] \<and> length nm < length r then Some nm else None)
      else None)"

definition parseSsName :: "jstring \<Rightarrow> jstring option" where
  "parseSsName proc = firstMatch usersName proc"

text \<open>The body of the loop of \<open>parseSs\<close> for one line: \<open>None\<close> where the source
  continues with the next line, the record where it pushes one. \<open>!port\<close> and \<open>!pid\<close>
  hold of \<open>null\<close> and of \<open>0\<close>.\<close>

definition parseSs_line :: "Protocol \<Rightarrow> jstring \<Rightarrow> jstring \<Rightarrow> Listener option" where
  "parseSs_line prot src line =
     (let parts = splitWs line in
      if length parts < 5 then None
      else
        (let local = (case at parts 3 of Some x \<Rightarrow> x | None \<Rightarrow> []);
             proc = joinSp (drop 5 parts)
         in case parseAddrPort local of
              (None, address) \<Rightarrow> None
            | (Some prt, address) \<Rightarrow>
                if prt = 0 then None
                else
                  (case parseSsPid proc of
                     None \<Rightarrow> None
                   | Some p \<Rightarrow>
                       if p = 0 then None
                       else Some \<lparr>protocol = prot, port = prt, pid = p, localAddress = address,
                                  processName = parseSsName proc, command = None, user = None,
                                  raw = Some line, source = Some src\<rparr>)))"

definition parseSs :: "jstring \<Rightarrow> Protocol \<Rightarrow> jstring \<Rightarrow> Listener list" where
  "parseSs stdout prot src =
     List.map_filter (parseSs_line prot src)
       (filter (\<lambda>l. l \<noteq> []) (map trim (splitLines stdout)))"

text \<open>\<open>parseWindowsAddressPort\<close>: \<open>/^(.*):(\d+)$/\<close> matches the whole of \<open>local\<close>, the
  digits being those after the last colon and the text before it free of line
  terminators; then \<open>address.replace(/^\[|\]$/g, '')\<close> takes a bracket off either
  end.\<close>

definition stripBrackets :: "jstring \<Rightarrow> jstring" where
  "stripBrackets a =
     (let a1 = (if a \<noteq> [] \<and> hd a = 91 then tl a else a)
      in if a1 \<noteq> [] \<and> last a1 = 93 then butlast a1 else a1)"

definition parseWindowsAddressPort :: "jstring \<Rightarrow> int option \<times> jstring option" where
  "parseWindowsAddressPort local =
     (let ds = rev (takeWhile isDigit (rev local));
          pre = take (length local - length ds) local
      in if ds \<noteq> [] \<and> pre \<noteq> [] \<and> last pre = 58 \<and> \<not> list_ex isLineTerminator (butlast pre) then
           (case parseInt (Some ds) of
              Finite prt \<Rightarrow> (Some prt, Some (stripBrackets (butlast pre)))
            | _ \<Rightarrow> (None, None))
         else (None, None))"

text \<open>The body of the loop of \<open>parseNetstat\<close> for one raw line.\<close>

definition parseNetstat_line :: "Protocol \<Rightarrow> jstring \<Rightarrow> Listener option" where
  "parseNetstat_line proto rawLine =
     (let line = trim rawLine in
      if line = [] then None
      else if startsWithCI line (ascii ''proto'') then None
      else if startsWithCI line (ascii ''active'') then None
      else
        (let parts = splitWs line in
         if length parts < 4 then None
         else
           (let p = toLowerCase (parts ! 0) in
            if p \<noteq> ascii ''tcp'' \<and> p \<noteq> ascii ''udp'' then None
            else
              (let hasState = (p = ascii ''tcp'');
                   local = parts ! 1;
                   state = (if hasState then at parts 3 else None);
                   pidStr = at parts (if hasState then 4 else 3)
               in if hasState \<and> state \<noteq> None \<and> state \<noteq> Some [] \<and>
                     toLowerCase (the state) \<noteq> ascii ''listening'' then None
                  else
                    (case parseInt pidStr of
                       Finite p' \<Rightarrow>
                         (case parseWindowsAddressPort local of
                            (None, address) \<Rightarrow> None
                          | (Some prt, address) \<Rightarrow>
                              if prt = 0 then None
                              else Some \<lparr>protocol = proto, port = prt, pid = p',
                                         localAddress = address, processName = None,
                                         command = None, user = None, raw = Some rawLine,
                                         source = Some (ascii ''netstat'')\<rparr>)
                     | _ \<Rightarrow> None)))))"

definition parseNetstat :: "jstring \<Rightarrow> Protocol \<Rightarrow> Listener list" where
  "parseNetstat stdout proto = List.map_filter (parseNetstat_line proto) (splitLines stdout)"

section \<open>The selection engine (\<open>ui/tui.ts\<close>)\<close>

text \<open>A keystroke arrives as a buffer of bytes. The keys that the source compares
  after decoding the buffer as UTF-8 are ASCII, so the comparison is one of bytes.\<close>

type_synonym buffer = "nat list"

definition KEY_up :: buffer where "KEY_up = [27, 91, 65]"
definition KEY_down :: buffer where "KEY_down = [27, 91, 66]"
definition KEY_pageUp :: buffer where "KEY_pageUp = [27, 91, 53, 126]"
definition KEY_pageDown :: buffer where "KEY_pageDown = [27, 91, 54, 126]"
definition KEY_home :: buffer where "KEY_home = [27, 91, 72]"
definition KEY_end :: buffer where "KEY_end = [27, 91, 70]"

definition isCtrlC :: "buffer \<Rightarrow> bool" where "isCtrlC buf = (buf = [3])"
definition isEsc :: "buffer \<Rightarrow> bool" where "isEsc buf = (buf = [27])"
definition isEnter :: "buffer \<Rightarrow> bool" where "isEnter buf = (buf = [10] \<or> buf = [13])"
definition isSpaceKey :: "buffer \<Rightarrow> bool" where "isSpaceKey buf = (buf = [32])"
definition isChar :: "buffer \<Rightarrow> nat \<Rightarrow> bool" where "isChar buf ch = (buf = [ch])"

record TuiSelectResult =
  cancelled :: bool
  selected :: "Listener list"

text \<open>The state of a session: the fields \<open>index\<close>, \<open>top\<close>, \<open>selected\<close> and \<open>done\<close> of
  \<open>state\<close>, the value that the promise was resolved with (\<open>None\<close> while it is pending),
  and \<open>process.exitCode\<close>. Rendering only writes to the terminal and is left out,
  with the \<open>width\<close> and \<open>height\<close> that it alone reads.\<close>

record TuiState =
  index :: int
  top_row :: int
  selected_set :: "int set"
  is_done :: bool
  resolved :: "TuiSelectResult option"
  exitCode :: "int option"

definition clamp :: "int \<Rightarrow> int \<Rightarrow> int \<Rightarrow> int" where
  "clamp n lo hi = max lo (min hi n)"

text \<open>\<open>visibleRows\<close>: \<open>stdout.rows\<close> is read at every call; \<open>None\<close> is \<open>undefined\<close>.\<close>

definition visibleRows :: "int option \<Rightarrow> int" where
  "visibleRows rows = max 1 ((case rows of None \<Rightarrow> 24 | Some r \<Rightarrow> if r = 0 then 24 else r) - 2)"

definition move :: "Listener list \<Rightarrow> int option \<Rightarrow> int \<Rightarrow> TuiState \<Rightarrow> TuiState" where
  "move items rows delta st =
     (let next = clamp (index st + delta) 0 (int (length items) - 1);
          st1 = st\<lparr>index := next\<rparr>;
          vis = visibleRows rows;
          st2 = (if index st1 < top_row st1 then st1\<lparr>top_row := index st1\<rparr> else st1)
      in if index st2 \<ge> top_row st2 + vis then st2\<lparr>top_row := index st2 - vis + 1\<rparr> else st2)"

definition toggleSelected :: "int \<Rightarrow> TuiState \<Rightarrow> TuiState" where
  "toggleSelected idx st =
     (if idx \<in> selected_set st then st\<lparr>selected_set := selected_set st - {idx}\<rparr>
      else st\<lparr>selected_set := insert idx (selected_set st)\<rparr>)"

definition finish :: "TuiSelectResult \<Rightarrow> TuiState \<Rightarrow> TuiState" where
  "finish r st = (if is_done st then st else st\<lparr>is_done := True, resolved := Some r\<rparr>)"

text \<open>\<open>items.filter((_, idx) => state.selected.has(idx))\<close>.\<close>

definition selectedItems :: "Listener list \<Rightarrow> int set \<Rightarrow> Listener list" where
  "selectedItems items sel =
     map fst (filter (\<lambda>(l, idx). idx \<in> sel) (zip items (map int [0..<length items])))"

text \<open>\<open>onData\<close>, with the rows of the terminal at the time of the keystroke.\<close>

definition onData :: "Listener list \<Rightarrow> int option \<Rightarrow> TuiState \<Rightarrow> buffer \<Rightarrow> TuiState" where
  "onData items rows st buf =
     (if is_done st then st
      else if isCtrlC buf then
        finish \<lparr>cancelled = True, selected = []\<rparr> (st\<lparr>exitCode := Some 130\<rparr>)
      else if isEsc buf then finish \<lparr>cancelled = True, selected = []\<rparr> st
      else if isEnter buf then
        finish \<lparr>cancelled = False, selected = selectedItems items (selected_set st)\<rparr> st
      else if isSpaceKey buf then toggleSelected (index st) st
      else if isChar buf 106 then move items rows 1 st
      else if isChar buf 107 then move items rows (- 1) st
      else if buf = KEY_up then move items rows (- 1) st
      else if buf = KEY_down then move items rows 1 st
      else if buf = KEY_pageUp then move items rows (- (visibleRows rows)) st
      else if buf = KEY_pageDown then move items rows (visibleRows rows) st
      else if buf = KEY_home then st\<lparr>index := 0, top_row := 0\<rparr>
      else if buf = KEY_end then
        st\<lparr>index := int (length items) - 1,
           top_row := max 0 (int (length items) - visibleRows rows)\<rparr>
      else st)"

definition initialState :: TuiState where
  "initialState = \<lparr>index = 0, top_row = 0, selected_set = {}, is_done = False,
                    resolved = None, exitCode = None\<rparr>"

text \<open>A session: the keystrokes are handled one at a time, in order. The terminal may
  be resized between two of them, so each comes with the value that \<open>stdout.rows\<close> has
  when it is handled.\<close>

type_synonym keystroke = "int option \<times> buffer"

definition session :: "Listener list \<Rightarrow> keystroke list \<Rightarrow> TuiState" where
  "session items keys = foldl (\<lambda>st (rows, buf). onData items rows st buf) initialState keys"

text \<open>The comparison function of \<open>items.sort\<close> and the stable sort it drives.\<close>

definition localeCompare :: "Protocol \<Rightarrow> Protocol \<Rightarrow> int" where
  "localeCompare a b = (if a = b then 0 else if a = tcp then - 1 else 1)"

definition compareListeners :: "Listener \<Rightarrow> Listener \<Rightarrow> int" where
  "compareListeners a b =
     (if port a - port b \<noteq> 0 then port a - port b
      else if localeCompare (protocol a) (protocol b) \<noteq> 0 then localeCompare (protocol a) (protocol b)
      else pid a - pid b)"

fun insertSorted :: "Listener \<Rightarrow> Listener list \<Rightarrow> Listener list" where
  "insertSorted x [] = [x]"
| "insertSorted x (y # ys) =
     (if compareListeners x y < 0 then x # y # ys else y # insertSorted x ys)"

definition sortListeners :: "Listener list \<Rightarrow> Listener list" where
  "sortListeners xs = foldl (\<lambda>acc x. insertSorted x acc) [] xs"

text \<open>\<open>selectListeners\<close>: the promise's value after the given keystrokes, \<open>None\<close> while
  the session waits for more.\<close>

definition selectListeners ::
  "Listener list \<Rightarrow> bool \<Rightarrow> keystroke list \<Rightarrow> TuiSelectResult option" where
  "selectListeners listeners isTTY keys =
     (let items = sortListeners (uniqBy listeners listenerKey) in
      if \<not> isTTY then Some \<lparr>cancelled = True, selected = []\<rparr>
      else resolved (session items keys))"

section \<open>The operating system\<close>

text \<open>
  The killers and the finders act on the operating system through \<open>process.kill\<close>,
  \<open>Date.now\<close>, \<open>setTimeout\<close> and \<open>spawn\<close>. The model gives them a world to act on:
  \<^item> \<open>now\<close>, the clock in milliseconds; it moves when the program sleeps or waits for
    a command, and only then, so that no process ends between two calls that the
    program makes with no wait between them;
  \<^item> \<open>procs\<close>, the process table. A process exits at the time \<open>exitsAt\<close> once that is
    set; \<open>onTerm\<close> and \<open>onKill\<close> say how long after SIGTERM and SIGKILL it exits
    (\<open>None\<close>: the signal has no effect on it), \<open>permitted\<close> whether the caller may
    signal it. A pid is a 32-bit integer: an entry of the table at any other number
    is no process. A number that is 0 or negative names a group of processes to
    \<open>process.kill\<close>; the table holds such a group as one entry;
  \<^item> \<open>programs\<close>, what an external command does when it is spawned: its output and
    its duration. A command neither reads nor changes the process table (what
    \<open>taskkill\<close> does to its target is not part of the model, only what it reports);
  \<^item> \<open>kills\<close> and \<open>execs\<close>, the calls of \<open>process.kill\<close> and of \<open>execFile\<close> made so
    far, oldest first, the latter with the \<open>timeoutMs\<close> option that was passed.
\<close>

datatype Signal = Sig0 | SIGTERM | SIGKILL

text \<open>The codes of the errors that \<open>process.kill\<close> throws.\<close>

datatype Errno = ESRCH | EPERM | ERR_INVALID_ARG_TYPE

record Proc =
  exitsAt :: "int option"
  onTerm :: "nat option"
  onKill :: "nat option"
  permitted :: bool

datatype Behaviour =
    SpawnFails "jstring option" "jstring option"
  | Exits nat jstring jstring "int option" "jstring option"
  | Hangs

record World =
  now :: int
  procs :: "int \<Rightarrow> Proc option"
  programs :: "jstring \<Rightarrow> jstring list \<Rightarrow> Behaviour"
  kills :: "(int \<times> Signal) list"
  execs :: "(jstring \<times> jstring list \<times> int option) list"

definition isInt32 :: "int \<Rightarrow> bool" where
  "isInt32 p = (- 2147483648 \<le> p \<and> p \<le> 2147483647)"

definition running :: "World \<Rightarrow> int \<Rightarrow> bool" where
  "running w p =
     (isInt32 p \<and>
      (case procs w p of
         None \<Rightarrow> False
       | Some pr \<Rightarrow> (case exitsAt pr of None \<Rightarrow> True | Some t \<Rightarrow> now w < t)))"

definition deliver :: "Signal \<Rightarrow> int \<Rightarrow> Proc \<Rightarrow> Proc" where
  "deliver sig t pr =
     (case (case sig of Sig0 \<Rightarrow> None | SIGTERM \<Rightarrow> onTerm pr | SIGKILL \<Rightarrow> onKill pr) of
        None \<Rightarrow> pr
      | Some d \<Rightarrow>
          pr\<lparr>exitsAt := Some (case exitsAt pr of None \<Rightarrow> t + int d | Some e \<Rightarrow> min e (t + int d))\<rparr>)"

text \<open>\<open>process.kill(pid, sig)\<close>: the error code it throws with, or \<open>None\<close> when the
  signal was sent. Node.js throws \<open>ERR_INVALID_ARG_TYPE\<close>, before any system call, for
  a pid that is not a 32-bit integer (\<open>pid != (pid | 0)\<close>).\<close>

definition process_kill :: "World \<Rightarrow> int \<Rightarrow> Signal \<Rightarrow> Errno option \<times> World" where
  "process_kill w p sig =
     (let w1 = w\<lparr>kills := kills w @ [(p, sig)]\<rparr> in
      if \<not> isInt32 p then (Some ERR_INVALID_ARG_TYPE, w1)
      else
        (case procs w p of
           None \<Rightarrow> (Some ESRCH, w1)
         | Some pr \<Rightarrow>
             if \<not> running w p then (Some ESRCH, w1)
             else if \<not> permitted pr then (Some EPERM, w1)
             else (None, w1\<lparr>procs := (procs w)(p \<mapsto> deliver sig (now w) pr)\<rparr>)))"

text \<open>\<open>err.code\<close> and \<open>err.message\<close> of the error thrown for the pid \<open>p\<close>.\<close>

definition errnoName :: "Errno \<Rightarrow> jstring" where
  "errnoName e =
     (case e of
        ESRCH \<Rightarrow> ascii ''ESRCH''
      | EPERM \<Rightarrow> ascii ''EPERM''
      | ERR_INVALID_ARG_TYPE \<Rightarrow> ascii ''ERR_INVALID_ARG_TYPE'')"

definition errnoMessage :: "Errno \<Rightarrow> int \<Rightarrow> jstring" where
  "errnoMessage e p =
     (if e = ERR_INVALID_ARG_TYPE then
        ascii ''The '' @ 34 # ascii ''pid'' @ 34 #
        ascii '' argument must be of type number. Received type number ('' @ String_of p @
        ascii '')''
      else ascii ''kill '' @ errnoName e)"

definition sleep :: "int \<Rightarrow> World \<Rightarrow> World" where
  "sleep ms w = w\<lparr>now := now w + ms\<rparr>"

section \<open>Running a command (\<open>utils/exec.ts\<close>)\<close>

record ExecResult =
  cmd :: jstring
  args :: "jstring list"
  stdout :: jstring
  stderr :: jstring
  code :: "int option"
  signal :: "jstring option"

text \<open>What a promise of the finders and killers is rejected with: the two error
  classes of \<open>exec.ts\<close>, and a plain \<open>Error\<close> with its message.\<close>

datatype JsError =
    ExecSpawnError "jstring option" "jstring option"
  | ExecTimeoutError jstring int
  | Error jstring


text \<open>\<open>execFile\<close>. The timer is set when \<open>options.timeoutMs\<close> is given and positive; a
  child still running when it fires is killed and the promise rejected with
  \<open>ExecTimeoutError\<close>. A child that never exits, with no timer set, leaves the promise
  pending for ever: the result is \<open>None\<close>.\<close>

definition execFile ::
  "World \<Rightarrow> jstring \<Rightarrow> jstring list \<Rightarrow> int option \<Rightarrow> ((JsError + ExecResult) \<times> World) option" where
  "execFile w c as timeoutMs =
     (let w1 = w\<lparr>execs := execs w @ [(c, as, timeoutMs)]\<rparr>;
          timer = (case timeoutMs of None \<Rightarrow> False | Some t \<Rightarrow> t > 0);
          t = (case timeoutMs of None \<Rightarrow> 0 | Some t \<Rightarrow> t)
      in case programs w c as of
           SpawnFails ecode emsg \<Rightarrow>
             Some (Inl (ExecSpawnError ecode
                     (Some (case emsg of Some m \<Rightarrow> m | None \<Rightarrow> ascii ''spawn failed''))), w1)
         | Exits d out err ec sg \<Rightarrow>
             if timer \<and> t \<le> int d then Some (Inl (ExecTimeoutError c t), sleep t w1)
             else Some (Inr \<lparr>cmd = c, args = as, stdout = out, stderr = err, code = ec,
                              signal = sg\<rparr>, sleep (int d) w1)
         | Hangs \<Rightarrow>
             if timer then Some (Inl (ExecTimeoutError c t), sleep t w1) else None)"

section \<open>The POSIX killer (\<open>core/killer/posix.ts\<close>)\<close>

record KillOptions =
  force :: "bool option"
  timeoutMs :: "int option"
  tree :: "bool option"

text \<open>\<open>KillResult\<close>. Its fields \<open>pid\<close> and \<open>method\<close> are \<open>pid_r\<close> and \<open>method_r\<close> here:
  \<open>pid\<close> is the field of \<open>Listener\<close>, and the other name is reserved.\<close>

record KillResult =
  pid_r :: int
  ok :: bool
  method_r :: jstring
  message :: "jstring option"
  errorCode :: "jstring option"

definition isAlive :: "World \<Rightarrow> int \<Rightarrow> bool \<times> World" where
  "isAlive w p =
     (case process_kill w p Sig0 of
        (Some ESRCH, w1) \<Rightarrow> (False, w1)
      | (_, w1) \<Rightarrow> (True, w1))"

text \<open>The loop of \<open>waitForExit\<close>, \<open>start\<close> being the clock when it was entered.\<close>

function waitLoop :: "int \<Rightarrow> int \<Rightarrow> int \<Rightarrow> World \<Rightarrow> bool \<times> World" where
  "waitLoop p start tmo w =
     (if now w - start < tmo then
        (case process_kill w p Sig0 of
           (Some ESRCH, w1) \<Rightarrow> (True, w1)
         | (_, w1) \<Rightarrow> waitLoop p start tmo (sleep 30 w1))
      else (False, w))"
  by pat_completeness auto
termination
  by (relation "measure (\<lambda>(p, start, tmo, w). nat (start + tmo - now w))")
     (auto simp: process_kill_def sleep_def Let_def split: option.splits if_splits)

definition waitForExit :: "World \<Rightarrow> int \<Rightarrow> int \<Rightarrow> bool \<times> World" where
  "waitForExit w p tmo = waitLoop p (now w) tmo w"

definition killSingle :: "World \<Rightarrow> int \<Rightarrow> int \<Rightarrow> KillResult \<times> World" where
  "killSingle w p tmo =
     (case process_kill w p SIGTERM of
        (Some e, w1) \<Rightarrow>
          if e = ESRCH then
            (\<lparr>pid_r = p, ok = True, method_r = ascii ''already-exited'', message = None,
              errorCode = None\<rparr>, w1)
          else
            (\<lparr>pid_r = p, ok = False, method_r = ascii ''SIGTERM'',
              message = Some (errnoMessage e p), errorCode = Some (errnoName e)\<rparr>, w1)
      | (None, w1) \<Rightarrow>
          (let (gone, w2) = (if tmo > 0 then waitForExit w1 p tmo else (False, w1)) in
           if tmo > 0 \<and> gone then
             (\<lparr>pid_r = p, ok = True, method_r = ascii ''SIGTERM'', message = None,
               errorCode = None\<rparr>, w2)
           else
             (case process_kill w2 p SIGKILL of
                (Some e, w3) \<Rightarrow>
                  if e = ESRCH then
                    (\<lparr>pid_r = p, ok = True, method_r = ascii ''SIGTERM'', message = None,
                      errorCode = None\<rparr>, w3)
                  else
                    (\<lparr>pid_r = p, ok = False, method_r = ascii ''SIGKILL'',
                      message = Some (errnoMessage e p), errorCode = Some (errnoName e)\<rparr>, w3)
              | (None, w3) \<Rightarrow>
                  (let (confirmed, w4) = waitForExit w3 p 200 in
                   if confirmed then
                     (\<lparr>pid_r = p, ok = True, method_r = ascii ''SIGKILL'', message = None,
                       errorCode = None\<rparr>, w4)
                   else
                     (\<lparr>pid_r = p, ok = False, method_r = ascii ''SIGKILL'',
                       message = Some (ascii ''process still alive''), errorCode = None\<rparr>,
                      w4)))))"

text \<open>\<open>listChildren\<close>: \<open>ps\<close> is run with a timeout of one second, and each line of its
  output that \<open>parseInt\<close> reads as a finite positive number is a child.\<close>

definition listChildren :: "World \<Rightarrow> int \<Rightarrow> ((JsError + int list) \<times> World) option" where
  "listChildren w p =
     (case execFile w (ascii ''ps'')
             [ascii ''-o'', ascii ''pid='', ascii ''--ppid'', String_of p] (Some 1000) of
        None \<Rightarrow> None
      | Some (Inl err, w1) \<Rightarrow> Some (Inl err, w1)
      | Some (Inr res, w1) \<Rightarrow>
          Some (Inr (List.map_filter
                       (\<lambda>line. case parseInt (Some (trim line)) of
                                  Finite n \<Rightarrow> if n > 0 then Some n else None
                                | _ \<Rightarrow> None)
                       (splitLines (stdout res))), w1))"

text \<open>The breadth-first loop of \<open>listDescendants\<close>, over the set \<open>seen\<close>, the array
  \<open>out\<close> and the queue \<open>q\<close>. \<open>descendantsStep\<close> is one round of it: either the loop
  ends there (\<open>Inl\<close>, with what \<open>listDescendants\<close> then has in hand) or it goes on with
  new values of its variables (\<open>Inr\<close>). Nothing bounds the number of rounds (each may
  find new children), so the loop is a partial function: \<open>None\<close> when it does not
  return.\<close>

definition descendantsStep ::
  "World \<times> int set \<times> int list \<times> int list \<Rightarrow>
   ((JsError + int list) \<times> World) option + World \<times> int set \<times> int list \<times> int list" where
  "descendantsStep st =
     (case st of (w, seen, out, q) \<Rightarrow>
        (case q of
           [] \<Rightarrow> Inl (Some (Inr out, w))
         | p # q' \<Rightarrow>
             if p \<in> seen then Inr (w, seen, out, q')
             else
               (case listChildren w p of
                  None \<Rightarrow> Inl None
                | Some (Inl err, w1) \<Rightarrow> Inl (Some (Inl err, w1))
                | Some (Inr children, w1) \<Rightarrow>
                    (let fresh = filter (\<lambda>c. c \<notin> insert p seen) children
                     in Inr (w1, insert p seen, out @ fresh, q' @ fresh)))))"

partial_function (option) descendantsLoop ::
  "World \<times> int set \<times> int list \<times> int list \<Rightarrow> ((JsError + int list) \<times> World) option" where
  "descendantsLoop st =
     (case descendantsStep st of
        Inl r \<Rightarrow> r
      | Inr st' \<Rightarrow> descendantsLoop st')"

definition listDescendants :: "World \<Rightarrow> int \<Rightarrow> ((JsError + int list) \<times> World) option" where
  "listDescendants w rootPid =
     (case descendantsLoop (w, {}, [], [rootPid]) of
        None \<Rightarrow> None
      | Some (Inl err, w1) \<Rightarrow> Some (Inl err, w1)
      | Some (Inr out, w1) \<Rightarrow> Some (Inr (filter (\<lambda>p. p \<noteq> rootPid) out), w1))"

text \<open>\<open>PosixKiller.kill\<close>. In tree mode the descendants are killed first, the last
  found first; an error of the listing is caught and ignored.\<close>

definition killChildren :: "World \<Rightarrow> int list \<Rightarrow> int \<Rightarrow> World" where
  "killChildren w children tmo = foldl (\<lambda>w' c. snd (killSingle w' c tmo)) w (rev children)"

definition kill :: "World \<Rightarrow> int \<Rightarrow> KillOptions \<Rightarrow> (KillResult \<times> World) option" where
  "kill w p options =
     (case isAlive w p of
        (False, w0) \<Rightarrow>
          Some (\<lparr>pid_r = p, ok = True, method_r = ascii ''already-exited'', message = None,
                 errorCode = None\<rparr>, w0)
      | (True, w0) \<Rightarrow>
          (let tmo = max 0 (case timeoutMs options of None \<Rightarrow> 0 | Some t \<Rightarrow> t) in
           if tree options = Some True then
             (case listDescendants w0 p of
                None \<Rightarrow> None
              | Some (Inl err, w1) \<Rightarrow> Some (killSingle w1 p tmo)
              | Some (Inr children, w1) \<Rightarrow> Some (killSingle (killChildren w1 children tmo) p tmo))
           else Some (killSingle w0 p tmo)))"

section \<open>The Windows killer (\<open>core/killer/windows.ts\<close>)\<close>

text \<open>The three tests of \<open>runTaskkill\<close> on the output: \<open>/SUCCESS|\<dots>/i\<close>,
  \<open>/not found|\<dots>/i\<close> and \<open>/Access.+denied|\<dots>/i\<close>, the second alternative of each
  being a Chinese phrase, given here by its code units (U+6210 U+529F; U+627E U+4E0D
  U+5230; U+62D2 U+7EDD U+8BBF U+95EE). \<open>.+\<close> is one or more code units other than
  line terminators.\<close>

definition successToken :: jstring where
  "successToken = [25104, 21151]"

definition matchesSuccess :: "jstring \<Rightarrow> bool" where
  "matchesSuccess out = (includesCI out (ascii ''SUCCESS'') \<or> includes_str out successToken)"

definition matchesNotFound :: "jstring \<Rightarrow> bool" where
  "matchesNotFound out =
     (includesCI out (ascii ''not found'') \<or> includes_str out [25214, 19981, 21040])"

definition accessDeniedAt :: "jstring \<Rightarrow> bool" where
  "accessDeniedAt t =
     (startsWithCI t (ascii ''Access'') \<and>
      (let r = drop 6 t; seg = takeWhile (\<lambda>c. \<not> isLineTerminator c) r
       in list_ex (\<lambda>k. startsWithCI (drop k r) (ascii ''denied'')) [1..<Suc (length seg)]))"

definition matchesAccessDenied :: "jstring \<Rightarrow> bool" where
  "matchesAccessDenied out =
     (firstMatch (\<lambda>t. if accessDeniedAt t then Some t else None) out \<noteq> None \<or>
      includes_str out [25298, 32477, 35775, 38382])"

text \<open>\<open>s.replace(/[\u0000-\u001F]|[^\x00-\x7F]/g, '').trim() || 'failed'\<close>.\<close>

definition cleanMsg :: "jstring \<Rightarrow> jstring" where
  "cleanMsg s =
     (let m = trim (filter (\<lambda>c. 32 \<le> c \<and> c \<le> 127) s)
      in if m = [] then ascii ''failed'' else m)"

fun findIndex :: "('a \<Rightarrow> bool) \<Rightarrow> 'a list \<Rightarrow> nat option" where
  "findIndex P [] = None"
| "findIndex P (x # xs) = (if P x then Some 0 else map_option Suc (findIndex P xs))"

definition parsePid :: "jstring list \<Rightarrow> int" where
  "parsePid as =
     (case findIndex (\<lambda>a. toUpperCase a = ascii ''/PID'') as of
        None \<Rightarrow> - 1
      | Some idx \<Rightarrow>
          (case parseInt (Some (case at as (idx + 1) of Some x \<Rightarrow> x | None \<Rightarrow> [])) of
             Finite n \<Rightarrow> n
           | _ \<Rightarrow> - 1))"

text \<open>\<open>err.message\<close>, \<open>String(err)\<close> and \<open>err.code\<close> of a rejection.\<close>

definition errorName :: "JsError \<Rightarrow> jstring" where
  "errorName err =
     (case err of
        ExecSpawnError c m \<Rightarrow> ascii ''ExecSpawnError''
      | ExecTimeoutError c t \<Rightarrow> ascii ''ExecTimeoutError''
      | Error m \<Rightarrow> ascii ''Error'')"

definition errorMessage :: "JsError \<Rightarrow> jstring" where
  "errorMessage err =
     (case err of
        ExecSpawnError c m \<Rightarrow> (case m of Some x \<Rightarrow> x | None \<Rightarrow> [])
      | ExecTimeoutError c t \<Rightarrow>
          ascii ''Command timed out after '' @ String_of t @ ascii ''ms: '' @ c
      | Error m \<Rightarrow> m)"

definition errorString :: "JsError \<Rightarrow> jstring" where
  "errorString err =
     (if errorMessage err = [] then errorName err
      else errorName err @ ascii '': '' @ errorMessage err)"

definition errorCodeOf :: "JsError \<Rightarrow> jstring option" where
  "errorCodeOf err = (case err of ExecSpawnError c m \<Rightarrow> c | _ \<Rightarrow> None)"

text \<open>What \<open>runTaskkill\<close> makes of a command that ran: the tests on the output in the
  order of the source, then the exit code.\<close>

definition classifyTaskkill :: "jstring list \<Rightarrow> ExecResult \<Rightarrow> KillResult" where
  "classifyTaskkill as res =
     (let out = trim (stdout res @ 10 # stderr res) in
      if matchesSuccess out then
        \<lparr>pid_r = parsePid as, ok = True, method_r = ascii ''taskkill'', message = None,
          errorCode = None\<rparr>
      else if matchesNotFound out then
        \<lparr>pid_r = parsePid as, ok = True, method_r = ascii ''already-exited'', message = None,
          errorCode = None\<rparr>
      else if matchesAccessDenied out then
        \<lparr>pid_r = parsePid as, ok = False, method_r = ascii ''taskkill'',
          message = Some (ascii ''access denied''), errorCode = Some (ascii ''EPERM'')\<rparr>
      else if code res = Some 0 then
        \<lparr>pid_r = parsePid as, ok = True, method_r = ascii ''taskkill'', message = None,
          errorCode = None\<rparr>
      else
        \<lparr>pid_r = parsePid as, ok = False, method_r = ascii ''taskkill'',
          message = Some (cleanMsg out), errorCode = None\<rparr>)"

definition runTaskkill :: "World \<Rightarrow> jstring list \<Rightarrow> (KillResult \<times> World) option" where
  "runTaskkill w as =
     (case execFile w (ascii ''taskkill'') as (Some 5000) of
        None \<Rightarrow> None
      | Some (Inr res, w1) \<Rightarrow> Some (classifyTaskkill as res, w1)
      | Some (Inl err, w1) \<Rightarrow>
          (let msg = (if errorMessage err \<noteq> [] then errorMessage err else errorString err);
               ecode = (case errorCodeOf err of
                          None \<Rightarrow> None
                        | Some c \<Rightarrow> if c = [] then None else Some c)
           in Some (\<lparr>pid_r = parsePid as, ok = False, method_r = ascii ''taskkill'',
                      message = Some (cleanMsg msg), errorCode = ecode\<rparr>, w1)))"

definition WindowsKiller_kill ::
  "World \<Rightarrow> int \<Rightarrow> KillOptions \<Rightarrow> (KillResult \<times> World) option" where
  "WindowsKiller_kill w p options =
     (case isAlive w p of
        (False, w0) \<Rightarrow>
          Some (\<lparr>pid_r = p, ok = True, method_r = ascii ''already-exited'', message = None,
                 errorCode = None\<rparr>, w0)
      | (True, w0) \<Rightarrow>
          (let baseArgs = [ascii ''/PID'', String_of p, ascii ''/T''] in
           case runTaskkill w0 baseArgs of
             None \<Rightarrow> None
           | Some (first, w1) \<Rightarrow>
               if ok first then
                 Some (\<lparr>pid_r = p, ok = True, method_r = ascii ''taskkill'', message = None,
                        errorCode = None\<rparr>, w1)
               else
                 (case runTaskkill w1 (baseArgs @ [ascii ''/F'']) of
                    None \<Rightarrow> None
                  | Some (forced, w2) \<Rightarrow>
                      if ok forced then
                        Some (\<lparr>pid_r = p, ok = True, method_r = ascii ''taskkill /F'',
                               message = None, errorCode = None\<rparr>, w2)
                      else if force options \<noteq> Some True \<and> errorCode forced = Some (ascii ''EPERM'')
                      then Some (forced, w2)
                      else Some (forced, w2))))"

section \<open>The commands of the finders\<close>







section \<open>Predicates and sample values for the properties\<close>

text \<open>The eight navigation keys: Up, Down, \<open>j\<close>, \<open>k\<close>, PageUp, PageDown, Home, End.\<close>

definition isNavKey :: "buffer \<Rightarrow> bool" where
  "isNavKey buf =
     (buf = KEY_up \<or> buf = KEY_down \<or> isChar buf 106 \<or> isChar buf 107 \<or>
      buf = KEY_pageUp \<or> buf = KEY_pageDown \<or> buf = KEY_home \<or> buf = KEY_end)"

text \<open>The bounds of the claim on the cursor and on the first row of the viewport, for
  a terminal of \<open>rows\<close> rows.\<close>

definition inBounds :: "Listener list \<Rightarrow> int option \<Rightarrow> TuiState \<Rightarrow> bool" where
  "inBounds items rows st =
     (0 \<le> index st \<and> index st \<le> int (length items) - 1 \<and>
      0 \<le> top_row st \<and> top_row st \<le> max 0 (int (length items) - visibleRows rows))"

text \<open>The cursor is on an item and the first row of the viewport is at or above it.\<close>

definition onItem :: "Listener list \<Rightarrow> TuiState \<Rightarrow> bool" where
  "onItem items st =
     (0 \<le> index st \<and> index st \<le> int (length items) - 1 \<and>
      0 \<le> top_row st \<and> top_row st \<le> index st)"

text \<open>The terminal does not grow during the keystrokes: each is handled with as many
  visible rows as the one before, or fewer.\<close>

definition neverGrows :: "keystroke list \<Rightarrow> bool" where
  "neverGrows keys = sorted_wrt (\<lambda>a b. visibleRows (fst b) \<le> visibleRows (fst a)) keys"

text \<open>A session in which nothing was toggled and nothing resolved.\<close>

definition idle :: "TuiState \<Rightarrow> bool" where
  "idle st = (\<not> is_done st \<and> selected_set st = {} \<and> resolved st = None)"

text \<open>Two listeners to run the functions on.\<close>

definition node3000 :: Listener where
  "node3000 = \<lparr>protocol = tcp, port = 3000, pid = 4242, localAddress = Some (ascii ''127.0.0.1''),
                processName = Some (ascii ''node''), command = None, user = None, raw = None,
                source = None\<rparr>"

definition vite5173 :: Listener where
  "vite5173 = \<lparr>protocol = tcp, port = 5173, pid = 977, localAddress = Some (ascii ''*''),
                processName = Some (ascii ''vite''), command = None, user = None, raw = None,
                source = None\<rparr>"

text \<open>Lines of \<open>ss\<close> and \<open>netstat\<close> output to run the parsers on: an \<open>ss\<close> line cut
  after its fourth field and a whole one, a TCP connection that is not listening, and
  a UDP endpoint.\<close>

definition ssTruncated :: jstring where
  "ssTruncated = ascii ''LISTEN 0 128 [::]:22''"

definition ssListening :: jstring where
  "ssListening = ascii ''LISTEN 0 128 0.0.0.0:22 0.0.0.0:* users:((sshd,pid=812,fd=3))''"

definition netstatEstablished :: jstring where
  "netstatEstablished = ascii ''  TCP    127.0.0.1:5000    127.0.0.1:6000    ESTABLISHED    1234''"

definition netstatUdp :: jstring where
  "netstatUdp = ascii ''  UDP    [::]:5353    *:*    4321''"

text \<open>More \<open>netstat\<close> lines: a listening TCP socket, a UDP endpoint on port 0, a UDP
  endpoint whose PID column has 310 digits, and an output of three lines.\<close>

definition netstatListening :: jstring where
  "netstatListening = ascii ''  TCP    0.0.0.0:135    0.0.0.0:0    LISTENING    988''"

definition netstatUdpPortZero :: jstring where
  "netstatUdpPortZero = ascii ''  UDP    0.0.0.0:0    *:*    1234''"

definition netstatUdpHugePid :: jstring where
  "netstatUdpHugePid = ascii ''UDP [::]:5353 *:* '' @ replicate 310 57"

definition netstatOutput :: jstring where
  "netstatOutput = netstatEstablished @ [13, 10] @ netstatListening @ [13, 10] @ netstatUdp"

text \<open>A world to run the killers in: a process that exits as soon as it is asked to,
  one that takes no notice of SIGTERM, one that neither signal ends, and no external
  command on the path.\<close>

definition quickProc :: Proc where
  "quickProc = \<lparr>exitsAt = None, onTerm = Some 0, onKill = Some 0, permitted = True\<rparr>"

definition stubbornProc :: Proc where
  "stubbornProc = \<lparr>exitsAt = None, onTerm = None, onKill = Some 0, permitted = True\<rparr>"

definition immuneProc :: Proc where
  "immuneProc = \<lparr>exitsAt = None, onTerm = None, onKill = None, permitted = True\<rparr>"

definition sampleWorld :: World where
  "sampleWorld =
     \<lparr>now = 0,
      procs = [4242 \<mapsto> quickProc, 4243 \<mapsto> stubbornProc, 4244 \<mapsto> immuneProc],
      programs = (\<lambda>c as. SpawnFails (Some (ascii ''ENOENT'')) None),
      kills = [],
      execs = []\<rparr>"

text \<open>A world for tree mode: one process, which ends of itself 100 ms from the start,
  and a \<open>ps\<close> that takes half a second to print nothing.\<close>

definition mortalProc :: Proc where
  "mortalProc = \<lparr>exitsAt = Some 100, onTerm = Some 0, onKill = Some 0, permitted = True\<rparr>"

definition slowPsWorld :: World where
  "slowPsWorld =
     \<lparr>now = 0,
      procs = [4245 \<mapsto> mortalProc],
      programs = (\<lambda>c as. Exits 500 [] [] (Some 0) None),
      kills = [],
      execs = []\<rparr>"

definition treeOptions :: KillOptions where
  "treeOptions = \<lparr>force = None, timeoutMs = None, tree = Some True\<rparr>"

text \<open>From \<open>w\<close> to \<open>w'\<close> the process \<open>p\<close> was left alone: no call of \<open>process.kill\<close> named
  it, its entry in the process table is as it was, and the clock has not gone back.\<close>

definition leavesAlone :: "int \<Rightarrow> World \<Rightarrow> World \<Rightarrow> bool" where
  "leavesAlone p w w' =
     ((\<exists>ks. kills w' = kills w @ ks \<and> (\<forall>k \<in> set ks. fst k \<noteq> p)) \<and>
      procs w' p = procs w p \<and> now w \<le> now w')"

definition graceOptions :: "int \<Rightarrow> KillOptions" where
  "graceOptions t = \<lparr>force = None, timeoutMs = Some t, tree = None\<rparr>"

text \<open>The two results of \<open>killSingle\<close> that carry no error code.\<close>

definition KillOk :: "int \<Rightarrow> string \<Rightarrow> KillResult" where
  "KillOk p m = \<lparr>pid_r = p, ok = True, method_r = ascii m, message = None, errorCode = None\<rparr>"

definition KillStillAlive :: "int \<Rightarrow> KillResult" where
  "KillStillAlive p = \<lparr>pid_r = p, ok = False, method_r = ascii ''SIGKILL'',
     message = Some (ascii ''process still alive''), errorCode = None\<rparr>"




definition taskkillWorld :: World where
  "taskkillWorld =
     sampleWorld\<lparr>programs := (\<lambda>c as. Exits 40 (successToken @ ascii '': PID 4243'') [] (Some 0) None)\<rparr>"

section \<open>Properties of the safety classifier\<close>

text \<open>
  Claim C2 (protection monotonicity). A listener whose pid is 0 or 4 on Windows, or 1 on
  any other platform, is reported as protected by \<open>protectionFor\<close>, whatever its other
  fields hold: nothing is assumed of the protocol, the port, the address, the process
  name, the command, the user, the raw line or the source.
\<close>

theorem protection_monotonicity:
  "(p = win32 \<and> (pid l = 0 \<or> pid l = 4)) \<or> (p \<noteq> win32 \<and> pid l = 1)
   \<Longrightarrow> protected (protectionFor p l)"
  by (auto simp: protectionFor_def Let_def)

theorem protection_monotonicity_witness:
  "protected (protectionFor win32
     \<lparr>protocol = tcp, port = 3000, pid = 4, localAddress = Some (ascii ''127.0.0.1''),
      processName = Some (ascii ''node''), command = None, user = Some (ascii ''dev''),
      raw = None, source = None\<rparr>)
   \<and> protected (protectionFor linux
     \<lparr>protocol = udp, port = 5353, pid = 1, localAddress = None,
      processName = Some (ascii ''node''), command = None, user = None,
      raw = None, source = None\<rparr>)"
  using protection_monotonicity [of win32
     "\<lparr>protocol = tcp, port = 3000, pid = 4, localAddress = Some (ascii ''127.0.0.1''),
      processName = Some (ascii ''node''), command = None, user = Some (ascii ''dev''),
      raw = None, source = None\<rparr>"]
    protection_monotonicity [of linux
     "\<lparr>protocol = udp, port = 5353, pid = 1, localAddress = None,
      processName = Some (ascii ''node''), command = None, user = None,
      raw = None, source = None\<rparr>"]
  by simp

section \<open>Properties of the deduplication\<close>

text \<open>The loop of \<open>uniqBy\<close> only ever appends to \<open>out\<close>, so what it returns is \<open>out\<close>
  followed by what it returns from an empty \<open>out\<close>.\<close>

lemma uniqBy_loop_out:
  "uniqBy_loop key (seen, out) xs = out @ uniqBy_loop key (seen, []) xs"
proof (induction xs arbitrary: seen out)
  case Nil
  then show ?case by simp
next
  case (Cons x xs)
  show ?case
    using Cons.IH [of seen out] Cons.IH [of "insert (key x) seen" "out @ [x]"]
      Cons.IH [of "insert (key x) seen" "[x]"]
    by (simp add: Let_def)
qed

lemma uniqBy_loop_append:
  "uniqBy_loop key (seen, out) (xs @ ys) =
   uniqBy_loop key (seen \<union> key ` set xs, uniqBy_loop key (seen, out) xs) ys"
  by (induction xs arbitrary: seen out) (auto simp: Let_def insert_absorb)

lemma uniqBy_loop_all_seen:
  "key ` set ys \<subseteq> seen \<Longrightarrow> uniqBy_loop key (seen, out) ys = out"
  by (induction ys arbitrary: out) (auto simp: Let_def)

lemma uniqBy_loop_fresh:
  "x \<in> set (uniqBy_loop key (seen, []) xs) \<Longrightarrow> key x \<notin> seen \<and> x \<in> set xs"
proof (induction xs arbitrary: seen)
  case Nil
  then show ?case by simp
next
  case (Cons y ys)
  show ?case
  proof (cases "key y \<in> seen")
    case True
    with Cons show ?thesis by (simp add: Let_def)
  next
    case False
    have "uniqBy_loop key (seen, []) (y # ys) = y # uniqBy_loop key (insert (key y) seen, []) ys"
      using False uniqBy_loop_out [of key "insert (key y) seen" "[y]" ys] by (simp add: Let_def)
    with Cons.prems have "x = y \<or> x \<in> set (uniqBy_loop key (insert (key y) seen, []) ys)"
      by simp
    then show ?thesis using Cons.IH [of "insert (key y) seen"] False by auto
  qed
qed

lemma uniqBy_loop_distinct: "distinct (map key (uniqBy_loop key (seen, []) xs))"
proof (induction xs arbitrary: seen)
  case Nil
  then show ?case by simp
next
  case (Cons y ys)
  show ?case
  proof (cases "key y \<in> seen")
    case True
    with Cons show ?thesis by (simp add: Let_def)
  next
    case False
    have eq: "uniqBy_loop key (seen, []) (y # ys) = y # uniqBy_loop key (insert (key y) seen, []) ys"
      using False uniqBy_loop_out [of key "insert (key y) seen" "[y]" ys] by (simp add: Let_def)
    have "key y \<notin> key ` set (uniqBy_loop key (insert (key y) seen, []) ys)"
    proof
      assume "key y \<in> key ` set (uniqBy_loop key (insert (key y) seen, []) ys)"
      then obtain z where z: "z \<in> set (uniqBy_loop key (insert (key y) seen, []) ys)" "key z = key y"
        by (metis imageE)
      from uniqBy_loop_fresh [OF z(1)] z(2) show False by simp
    qed
    then show ?thesis using eq Cons.IH [of "insert (key y) seen"] by simp
  qed
qed

lemma uniqBy_loop_keep:
  "distinct (map key ys) \<Longrightarrow> key ` set ys \<inter> seen = {} \<Longrightarrow>
   uniqBy_loop key (seen, out) ys = out @ ys"
proof (induction ys arbitrary: seen out)
  case Nil
  then show ?case by simp
next
  case (Cons y ys)
  have "key y \<notin> seen" using Cons.prems by auto
  moreover have "key ` set ys \<inter> insert (key y) seen = {}" using Cons.prems by auto
  moreover have "distinct (map key ys)" using Cons.prems by simp
  ultimately show ?case
    using Cons.IH [of "insert (key y) seen" "out @ [y]"] by (simp add: Let_def)
qed

lemma uniqBy_loop_keys:
  "key ` set (uniqBy_loop key (seen, []) xs) \<union> seen = key ` set xs \<union> seen"
proof (induction xs arbitrary: seen)
  case Nil
  then show ?case by simp
next
  case (Cons y ys)
  show ?case
  proof (cases "key y \<in> seen")
    case True
    with Cons.IH [of seen] show ?thesis by (auto simp: Let_def)
  next
    case False
    have eq: "uniqBy_loop key (seen, []) (y # ys) = y # uniqBy_loop key (insert (key y) seen, []) ys"
      using False uniqBy_loop_out [of key "insert (key y) seen" "[y]" ys] by (simp add: Let_def)
    have "key ` set (uniqBy_loop key (seen, []) (y # ys)) \<union> seen
          = key ` set (uniqBy_loop key (insert (key y) seen, []) ys) \<union> insert (key y) seen"
      unfolding eq by simp
    also have "\<dots> = key ` set ys \<union> insert (key y) seen"
      by (rule Cons.IH)
    also have "\<dots> = key ` set (y # ys) \<union> seen" by simp
    finally show ?thesis .
  qed
qed

lemma uniqBy_twice: "uniqBy (xs @ xs) key = uniqBy xs key"
  by (simp add: uniqBy_def uniqBy_loop_append uniqBy_loop_all_seen)

lemma uniqBy_idempotent: "uniqBy (uniqBy xs key) key = uniqBy xs key"
  using uniqBy_loop_keep [of key "uniqBy_loop key ({}, []) xs" "{}" "[]"]
    uniqBy_loop_distinct [of key "{}" xs]
  by (simp add: uniqBy_def)

lemma uniqBy_distinct_keys: "distinct (map key (uniqBy xs key))"
  by (simp add: uniqBy_def uniqBy_loop_distinct)

lemma uniqBy_same_keys: "key ` set (uniqBy xs key) = key ` set xs"
  using uniqBy_loop_keys [of key "{}" xs] by (simp add: uniqBy_def)

text \<open>The key is faithful to the four fields: the decimal numerals of the port and the
  pid hold no colon and determine the numbers, so two keys are equal exactly when the
  fields are, a missing address counting as the empty one.\<close>

lemma digitsValue_snoc: "digitsValue (ds @ [d]) = 10 * digitsValue ds + (d - 48)"
  by (simp add: digitsValue_def)

lemma digitsValue_digitsOf: "digitsValue (digitsOf n) = n"
proof (induction n rule: digitsOf.induct)
  case (1 n)
  show ?case
  proof (cases "n < 10")
    case True
    then show ?thesis by (subst digitsOf.simps) (simp add: digitsValue_def)
  next
    case False
    have "digitsValue (digitsOf n) = 10 * digitsValue (digitsOf (n div 10)) + n mod 10"
      using False by (subst digitsOf.simps) (simp add: digitsValue_snoc)
    also have "\<dots> = 10 * (n div 10) + n mod 10" using 1 False by simp
    also have "\<dots> = n" by presburger
    finally show ?thesis .
  qed
qed

lemma digitsOf_digits: "list_all isDigit (digitsOf n)"
proof (induction n rule: digitsOf.induct)
  case (1 n)
  show ?case
  proof (cases "n < 10")
    case True
    then show ?thesis by (subst digitsOf.simps) (simp add: isDigit_def)
  next
    case False
    have "n mod 10 < 10" by simp
    then have "isDigit (48 + n mod 10)" unfolding isDigit_def by linarith
    then show ?thesis using 1 False by (subst digitsOf.simps) simp
  qed
qed

lemma digitsOf_not_Nil: "digitsOf n \<noteq> []"
  by (subst digitsOf.simps) simp

lemma digitsOf_inj: "digitsOf m = digitsOf n \<Longrightarrow> m = n"
  by (metis digitsValue_digitsOf)

lemma String_of_inj: "String_of i = String_of j \<Longrightarrow> i = j"
proof -
  assume e: "String_of i = String_of j"
  have h: "hd (digitsOf n) \<noteq> 45" for n
  proof -
    have "isDigit (hd (digitsOf n))"
      using digitsOf_digits [of n] digitsOf_not_Nil [of n] by (cases "digitsOf n") auto
    then show ?thesis by (auto simp: isDigit_def)
  qed
  show "i = j"
  proof (cases "i < 0")
    case True
    show ?thesis
    proof (cases "j < 0")
      case True
      with \<open>i < 0\<close> e have "digitsOf (nat (- i)) = digitsOf (nat (- j))" by (simp add: String_of_def)
      then have "nat (- i) = nat (- j)" by (rule digitsOf_inj)
      with True \<open>i < 0\<close> show ?thesis by simp
    next
      case False
      with \<open>i < 0\<close> e have "45 # digitsOf (nat (- i)) = digitsOf (nat j)" by (simp add: String_of_def)
      then have "hd (digitsOf (nat j)) = 45" by (metis list.sel(1))
      with h show ?thesis by blast
    qed
  next
    case False
    show ?thesis
    proof (cases "j < 0")
      case True
      with False e have "digitsOf (nat i) = 45 # digitsOf (nat (- j))" by (simp add: String_of_def)
      then have "hd (digitsOf (nat i)) = 45" by (metis list.sel(1))
      with h show ?thesis by blast
    next
      case jf: False
      with False e have "digitsOf (nat i) = digitsOf (nat j)" by (simp add: String_of_def)
      then have "nat i = nat j" by (rule digitsOf_inj)
      with False jf show ?thesis by simp
    qed
  qed
qed

lemma String_of_no_colon: "58 \<notin> set (String_of i)"
proof -
  have "58 \<notin> set (digitsOf n)" for n
    using digitsOf_digits [of n] by (auto simp: list_all_iff isDigit_def)
  then show ?thesis by (simp add: String_of_def)
qed

lemma split_at_colon:
  assumes "a @ 58 # r = b @ 58 # s" "58 \<notin> set a" "58 \<notin> set b"
  shows "a = b \<and> r = s"
  using assms
proof (induction a arbitrary: b)
  case Nil
  then show ?case by (cases b) auto
next
  case (Cons x a)
  then show ?case by (cases b) auto
qed

lemma protocolName_facts:
  "58 \<notin> set (protocolName p)" "protocolName p = protocolName q \<Longrightarrow> p = q"
  by (cases p; cases q; simp add: protocolName_def ascii_def)+

lemma listenerKey_eq_iff:
  "(listenerKey a = listenerKey b) =
   (protocol a = protocol b \<and> port a = port b \<and> pid a = pid b \<and>
    (case localAddress a of Some x \<Rightarrow> x | None \<Rightarrow> []) =
    (case localAddress b of Some x \<Rightarrow> x | None \<Rightarrow> []))"
proof
  assume "listenerKey a = listenerKey b"
  then have e: "protocolName (protocol a) @ 58 # (String_of (port a) @ 58 # String_of (pid a) @ 58 #
       (case localAddress a of Some x \<Rightarrow> x | None \<Rightarrow> [])) =
     protocolName (protocol b) @ 58 # (String_of (port b) @ 58 # String_of (pid b) @ 58 #
       (case localAddress b of Some x \<Rightarrow> x | None \<Rightarrow> []))"
    by (simp add: listenerKey_def)
  from split_at_colon [OF e protocolName_facts(1) protocolName_facts(1)]
  have 1: "protocolName (protocol a) = protocolName (protocol b)"
    and e2: "String_of (port a) @ 58 # String_of (pid a) @ 58 #
       (case localAddress a of Some x \<Rightarrow> x | None \<Rightarrow> []) =
       String_of (port b) @ 58 # String_of (pid b) @ 58 #
       (case localAddress b of Some x \<Rightarrow> x | None \<Rightarrow> [])" by auto
  from split_at_colon [OF e2 String_of_no_colon String_of_no_colon]
  have 2: "String_of (port a) = String_of (port b)"
    and e3: "String_of (pid a) @ 58 # (case localAddress a of Some x \<Rightarrow> x | None \<Rightarrow> []) =
       String_of (pid b) @ 58 # (case localAddress b of Some x \<Rightarrow> x | None \<Rightarrow> [])" by auto
  from split_at_colon [OF e3 String_of_no_colon String_of_no_colon]
  have 3: "String_of (pid a) = String_of (pid b)"
    and 4: "(case localAddress a of Some x \<Rightarrow> x | None \<Rightarrow> []) =
       (case localAddress b of Some x \<Rightarrow> x | None \<Rightarrow> [])" by auto
  show "protocol a = protocol b \<and> port a = port b \<and> pid a = pid b \<and>
    (case localAddress a of Some x \<Rightarrow> x | None \<Rightarrow> []) =
    (case localAddress b of Some x \<Rightarrow> x | None \<Rightarrow> [])"
    using protocolName_facts(2) [OF 1] String_of_inj [OF 2] String_of_inj [OF 3] 4 by simp
next
  assume "protocol a = protocol b \<and> port a = port b \<and> pid a = pid b \<and>
    (case localAddress a of Some x \<Rightarrow> x | None \<Rightarrow> []) =
    (case localAddress b of Some x \<Rightarrow> x | None \<Rightarrow> [])"
  then show "listenerKey a = listenerKey b" by (simp add: listenerKey_def)
qed

text \<open>
  Claim C4 (dedup idempotence). Deduplicating the concatenation of a list of listeners
  with itself gives the very list that deduplicating it once gives, and deduplicating
  a deduplicated list changes nothing. The result holds each key of the input once,
  and two listeners have the same key exactly when they agree on protocol, port, pid
  and local address (a missing address being the empty one).
\<close>

theorem dedupe_idempotence:
  "dedupe (xs @ xs) = dedupe xs
   \<and> dedupe (dedupe xs) = dedupe xs
   \<and> distinct (map listenerKey (dedupe xs))
   \<and> listenerKey ` set (dedupe xs) = listenerKey ` set xs
   \<and> (listenerKey a = listenerKey b) =
       (protocol a = protocol b \<and> port a = port b \<and> pid a = pid b \<and>
        (case localAddress a of Some x \<Rightarrow> x | None \<Rightarrow> []) =
        (case localAddress b of Some x \<Rightarrow> x | None \<Rightarrow> []))"
  using listenerKey_eq_iff [of a b]
  by (simp add: dedupe_def uniqBy_twice uniqBy_idempotent uniqBy_distinct_keys uniqBy_same_keys)

section \<open>Properties of the selection engine\<close>

lemma visibleRows_pos: "1 \<le> visibleRows rows"
  by (simp add: visibleRows_def)

lemma move_inBounds:
  assumes "items \<noteq> []" "inBounds items rows st"
  shows "inBounds items rows (move items rows delta st)"
proof -
  have n: "1 \<le> int (length items)" using assms(1) by (cases items) auto
  have v: "1 \<le> visibleRows rows" by (rule visibleRows_pos)
  show ?thesis
    using assms(2) n v
    by (auto simp: inBounds_def move_def clamp_def Let_def)
qed

lemma onData_inBounds:
  assumes "items \<noteq> []" "inBounds items rows st"
  shows "inBounds items rows (onData items rows st buf)"
proof -
  have n: "1 \<le> int (length items)" using assms(1) by (cases items) auto
  have e: "inBounds items rows (st\<lparr>index := int (length items) - 1,
           top_row := max 0 (int (length items) - visibleRows rows)\<rparr>)"
    using n assms(1) by (simp add: inBounds_def)
  have h: "inBounds items rows (st\<lparr>index := 0, top_row := 0\<rparr>)"
    using n assms(1) by (simp add: inBounds_def)
  have f: "\<And>r s. inBounds items rows s \<Longrightarrow> inBounds items rows (finish r s)"
    by (simp add: inBounds_def finish_def)
  have t: "inBounds items rows (toggleSelected (index st) st)"
    using assms(2) by (simp add: inBounds_def toggleSelected_def)
  have x: "inBounds items rows (st\<lparr>exitCode := Some 130\<rparr>)"
    using assms(2) by (simp add: inBounds_def)
  show ?thesis
    unfolding onData_def
    using assms e h f t x move_inBounds [OF assms] by simp
qed

text \<open>Whatever the height of the terminal at each keystroke, the cursor stays on an
  item and the first row of the viewport at or above it.\<close>

lemma move_onItem:
  assumes "items \<noteq> []" "onItem items st"
  shows "onItem items (move items rows delta st)"
proof -
  have n: "1 \<le> int (length items)" using assms(1) by (cases items) auto
  have v: "1 \<le> visibleRows rows" by (rule visibleRows_pos)
  define nx where "nx = clamp (index st + delta) 0 (int (length items) - 1)"
  have b: "0 \<le> nx" "nx \<le> int (length items) - 1"
    using n by (auto simp: nx_def clamp_def)
  have m: "move items rows delta st =
      (if nx < top_row st then
         (if nx \<ge> nx + visibleRows rows then st\<lparr>index := nx, top_row := nx - visibleRows rows + 1\<rparr>
          else st\<lparr>index := nx, top_row := nx\<rparr>)
       else if nx \<ge> top_row st + visibleRows rows
         then st\<lparr>index := nx, top_row := nx - visibleRows rows + 1\<rparr>
       else st\<lparr>index := nx\<rparr>)"
    by (simp add: move_def Let_def nx_def)
  show ?thesis
    unfolding m using assms(2) b v by (simp add: onItem_def)
qed

lemma onData_onItem:
  assumes "items \<noteq> []" "onItem items st"
  shows "onItem items (onData items rows st buf)"
proof -
  have n: "1 \<le> int (length items)" using assms(1) by (cases items) auto
  have v: "1 \<le> visibleRows rows" by (rule visibleRows_pos)
  have e: "onItem items (st\<lparr>index := int (length items) - 1,
           top_row := max 0 (int (length items) - visibleRows rows)\<rparr>)"
    using n v assms(1) by (simp add: onItem_def)
  have h: "onItem items (st\<lparr>index := 0, top_row := 0\<rparr>)"
    using n assms(1) by (simp add: onItem_def)
  have f: "\<And>r s. onItem items s \<Longrightarrow> onItem items (finish r s)"
    by (simp add: onItem_def finish_def)
  have t: "onItem items (toggleSelected (index st) st)"
    using assms(2) by (simp add: onItem_def toggleSelected_def)
  have x: "onItem items (st\<lparr>exitCode := Some 130\<rparr>)"
    using assms(2) by (simp add: onItem_def)
  show ?thesis
    unfolding onData_def
    using assms e h f t x move_onItem [OF assms] by simp
qed

lemma session_snoc:
  "session items (ks @ [(rows, k)]) = onData items rows (session items ks) k"
  by (simp add: session_def)

lemma session_onItem:
  "items \<noteq> [] \<Longrightarrow> onItem items (session items keys)"
proof (induction keys rule: rev_induct)
  case Nil
  then show ?case by (cases items) (auto simp: session_def onItem_def initialState_def)
next
  case (snoc k ks)
  obtain rows buf where k: "k = (rows, buf)" by (cases k)
  from snoc show ?case by (simp add: k session_snoc onData_onItem)
qed

text \<open>The bound on the first row gets weaker when the terminal shrinks, so it is kept
  as long as the terminal does not grow.\<close>

lemma inBounds_shrink:
  "visibleRows rows' \<le> visibleRows rows \<Longrightarrow> inBounds items rows st \<Longrightarrow> inBounds items rows' st"
  by (auto simp: inBounds_def)

lemma inBounds_initial: "items \<noteq> [] \<Longrightarrow> inBounds items rows (session items [])"
  by (cases items) (auto simp: session_def inBounds_def initialState_def)

lemma session_inBounds:
  "items \<noteq> [] \<Longrightarrow> neverGrows keys \<Longrightarrow> keys \<noteq> [] \<Longrightarrow>
   inBounds items (fst (last keys)) (session items keys)"
proof (induction keys rule: rev_induct)
  case Nil
  then show ?case by simp
next
  case (snoc k ks)
  obtain rows buf where k: "k = (rows, buf)" by (cases k)
  have "inBounds items rows (session items ks)"
  proof (cases "ks = []")
    case True
    then show ?thesis using snoc.prems(1) by (simp add: inBounds_initial)
  next
    case False
    have g: "neverGrows ks" and l: "visibleRows rows \<le> visibleRows (fst (last ks))"
      using snoc.prems(2) False by (auto simp: neverGrows_def sorted_wrt_append k)
    have "inBounds items (fst (last ks)) (session items ks)"
      using snoc.IH [OF snoc.prems(1) g False] .
    then show ?thesis using l by (rule inBounds_shrink [rotated])
  qed
  then show ?case using snoc.prems(1) by (simp add: k session_snoc onData_inBounds)
qed

lemma constant_neverGrows: "\<forall>k \<in> set keys. fst k = rows \<Longrightarrow> neverGrows keys"
  by (auto simp: neverGrows_def sorted_wrt_iff_nth_less)

lemma neverGrows_take: "neverGrows keys \<Longrightarrow> neverGrows (take n keys)"
  by (simp add: neverGrows_def sorted_wrt_take)

text \<open>
  Claim C5 (navigation bounds). For a list with at least one item, after each keystroke
  of any sequence (\<open>take n keys\<close> are the keystrokes handled when the \<open>n\<close>-th has been),
  whatever the height of the terminal at each of them, the cursor index is in
  \<open>[0, itemCount - 1]\<close> and the first row of the viewport is in \<open>[0, index]\<close>. The
  first row is in \<open>[0, max(0, itemCount - viewportHeight)]\<close>, for the height at the last
  keystroke, when the terminal has not grown during the session, and so when its
  height has stayed the same. The keystrokes are any buffers, those of Up, Down, \<open>j\<close>,
  \<open>k\<close>, PageUp, PageDown, Home and End among them.
\<close>

theorem navigation_bounds:
  assumes "items \<noteq> []"
  shows "0 \<le> index (session items (take n keys))
       \<and> index (session items (take n keys)) \<le> int (length items) - 1
       \<and> 0 \<le> top_row (session items (take n keys))
       \<and> top_row (session items (take n keys)) \<le> index (session items (take n keys))
       \<and> (neverGrows (take n keys) \<and> take n keys \<noteq> [] \<longrightarrow>
            top_row (session items (take n keys))
              \<le> max 0 (int (length items) - visibleRows (fst (last (take n keys)))))
       \<and> ((\<forall>k \<in> set keys. fst k = rows) \<longrightarrow>
            top_row (session items (take n keys))
              \<le> max 0 (int (length items) - visibleRows rows))"
proof (intro conjI impI)
  have o: "onItem items (session items (take n keys))"
    using assms by (rule session_onItem)
  from o show "0 \<le> index (session items (take n keys))" by (simp add: onItem_def)
  from o show "index (session items (take n keys)) \<le> int (length items) - 1"
    by (simp add: onItem_def)
  from o show "0 \<le> top_row (session items (take n keys))" by (simp add: onItem_def)
  from o show "top_row (session items (take n keys)) \<le> index (session items (take n keys))"
    by (simp add: onItem_def)
next
  assume "neverGrows (take n keys) \<and> take n keys \<noteq> []"
  then have "inBounds items (fst (last (take n keys))) (session items (take n keys))"
    using assms by (simp add: session_inBounds)
  then show "top_row (session items (take n keys))
              \<le> max 0 (int (length items) - visibleRows (fst (last (take n keys))))"
    by (simp add: inBounds_def)
next
  assume c: "\<forall>k \<in> set keys. fst k = rows"
  show "top_row (session items (take n keys)) \<le> max 0 (int (length items) - visibleRows rows)"
  proof (cases "take n keys = []")
    case True
    have "session items (take n keys) = initialState"
      unfolding True session_def by simp
    then show ?thesis by (simp add: initialState_def)
  next
    case False
    have g: "neverGrows (take n keys)"
      using c by (intro neverGrows_take constant_neverGrows)
    have "last (take n keys) \<in> set keys"
      using False by (meson in_set_takeD last_in_set)
    then have r: "fst (last (take n keys)) = rows" using c by simp
    have "inBounds items (fst (last (take n keys))) (session items (take n keys))"
      using assms g False by (rule session_inBounds)
    then show ?thesis by (simp add: inBounds_def r)
  qed
qed

lemmas tui_eval = session_def onData_def isCtrlC_def isEsc_def isEnter_def isSpaceKey_def isChar_def
  KEY_up_def KEY_down_def KEY_pageUp_def KEY_pageDown_def KEY_home_def KEY_end_def
  move_def clamp_def visibleRows_def toggleSelected_def finish_def initialState_def Let_def
  isNavKey_def neverGrows_def

theorem navigation_bounds_witness:
  "0 \<le> index (session [node3000, vite5173]
           (take 3 [(Some 5, KEY_end), (Some 4, KEY_pageDown), (Some 4, KEY_up), (Some 3, KEY_home)]))
   \<and> index (session [node3000, vite5173]
           (take 3 [(Some 5, KEY_end), (Some 4, KEY_pageDown), (Some 4, KEY_up), (Some 3, KEY_home)]))
       \<le> int (length [node3000, vite5173]) - 1
   \<and> 0 \<le> top_row (session [node3000, vite5173]
           (take 3 [(Some 5, KEY_end), (Some 4, KEY_pageDown), (Some 4, KEY_up), (Some 3, KEY_home)]))
   \<and> top_row (session [node3000, vite5173]
           (take 3 [(Some 5, KEY_end), (Some 4, KEY_pageDown), (Some 4, KEY_up), (Some 3, KEY_home)]))
       \<le> index (session [node3000, vite5173]
           (take 3 [(Some 5, KEY_end), (Some 4, KEY_pageDown), (Some 4, KEY_up), (Some 3, KEY_home)]))
   \<and> top_row (session [node3000, vite5173]
           (take 3 [(Some 5, KEY_end), (Some 4, KEY_pageDown), (Some 4, KEY_up), (Some 3, KEY_home)]))
       \<le> max 0 (int (length [node3000, vite5173]) - visibleRows (Some 4))
   \<and> top_row (session [node3000, vite5173]
           (take 2 [(Some 4, KEY_end), (Some 4, KEY_pageDown), (Some 4, KEY_up)]))
       \<le> max 0 (int (length [node3000, vite5173]) - visibleRows (Some 4))"
proof -
  have g: "neverGrows (take 3 [(Some 5, KEY_end), (Some 4, KEY_pageDown), (Some 4, KEY_up),
                               (Some 3, KEY_home)])
           \<and> take 3 [(Some 5, KEY_end), (Some 4, KEY_pageDown), (Some 4, KEY_up),
                      (Some 3, KEY_home)] \<noteq> []"
    by (simp add: neverGrows_def visibleRows_def)
  have l: "fst (last (take 3 [(Some 5, KEY_end), (Some 4, KEY_pageDown), (Some 4, KEY_up),
                              (Some 3, KEY_home)])) = Some (4::int)"
    by simp
  have c: "\<forall>k \<in> set [(Some 4, KEY_end), (Some 4, KEY_pageDown), (Some 4, KEY_up)]. fst k = Some (4::int)"
    by simp
  have n: "[node3000, vite5173] \<noteq> []" by simp
  show ?thesis
    using navigation_bounds [OF n, of 3
        "[(Some 5, KEY_end), (Some 4, KEY_pageDown), (Some 4, KEY_up), (Some 3, KEY_home)]" None]
      navigation_bounds [OF n, of 2 "[(Some 4, KEY_end), (Some 4, KEY_pageDown), (Some 4, KEY_up)]"
        "Some 4"]
      g l c
    by simp
qed

text \<open>When the terminal grows, the bound on the first row can fail: with thirty items,
  End on a terminal of 10 rows puts the first row at 22, and Up on a terminal grown to
  40 rows leaves it there, above \<open>max(0, 30 - 38) = 0\<close>.\<close>

theorem navigation_bounds_counterexample:
  "top_row (session (replicate 30 node3000) [(Some 10, KEY_end), (Some 40, KEY_up)]) = 22
   \<and> index (session (replicate 30 node3000) [(Some 10, KEY_end), (Some 40, KEY_up)]) = 28
   \<and> max 0 (int (length (replicate 30 node3000)) - visibleRows (Some 40)) = 0"
  by (simp add: tui_eval)

lemma filter_index_eq: "k < n \<Longrightarrow> filter (\<lambda>j. int j = int k) [0..<n] = [k]"
proof (induction n)
  case 0 then show ?case by simp
next
  case (Suc n)
  show ?case
  proof (cases "k < n")
    case True
    with Suc.IH show ?thesis by simp
  next
    case False
    with Suc.prems have "k = n" by simp
    then show ?thesis by (simp add: filter_empty_conv)
  qed
qed

lemma zip_indices: "zip xs (map int [0..<length xs]) = map (\<lambda>j. (xs ! j, int j)) [0..<length xs]"
  by (rule nth_equalityI) auto

lemma selectedItems_nat:
  assumes "k < length items"
  shows "selectedItems items {int k} = [items ! k]"
proof -
  have "selectedItems items {int k} =
        map (\<lambda>j. items ! j) (filter (\<lambda>j. int j = int k) [0..<length items])"
    unfolding selectedItems_def zip_indices
    by (simp add: filter_map comp_def)
  then show ?thesis using filter_index_eq [OF assms] by simp
qed

lemma selectedItems_single:
  assumes "0 \<le> i" "i < int (length items)"
  shows "selectedItems items {i} = [items ! nat i]"
  using selectedItems_nat [of "nat i" items] assms by simp

lemma move_frame:
  "is_done (move items rows d st) = is_done st"
  "selected_set (move items rows d st) = selected_set st"
  "resolved (move items rows d st) = resolved st"
  by (simp_all add: move_def Let_def)

lemma nav_onData:
  assumes "isNavKey k" "\<not> is_done st"
  shows "onData items rows st k = move items rows 1 st
       \<or> onData items rows st k = move items rows (- 1) st
       \<or> onData items rows st k = move items rows (- (visibleRows rows)) st
       \<or> onData items rows st k = move items rows (visibleRows rows) st
       \<or> onData items rows st k = st\<lparr>index := 0, top_row := 0\<rparr>
       \<or> onData items rows st k = st\<lparr>index := int (length items) - 1,
            top_row := max 0 (int (length items) - visibleRows rows)\<rparr>"
  using assms(1) unfolding isNavKey_def
proof (elim disjE)
  assume "k = KEY_up" with assms(2) show ?thesis
    by (simp add: onData_def isCtrlC_def isEsc_def isEnter_def isSpaceKey_def isChar_def KEY_up_def)
next
  assume "k = KEY_down" with assms(2) show ?thesis
    by (simp add: onData_def isCtrlC_def isEsc_def isEnter_def isSpaceKey_def isChar_def
        KEY_up_def KEY_down_def)
next
  assume "isChar k 106" with assms(2) show ?thesis
    by (simp add: onData_def isCtrlC_def isEsc_def isEnter_def isSpaceKey_def isChar_def)
next
  assume "isChar k 107" with assms(2) show ?thesis
    by (simp add: onData_def isCtrlC_def isEsc_def isEnter_def isSpaceKey_def isChar_def)
next
  assume "k = KEY_pageUp" with assms(2) show ?thesis
    by (simp add: onData_def isCtrlC_def isEsc_def isEnter_def isSpaceKey_def isChar_def
        KEY_up_def KEY_down_def KEY_pageUp_def)
next
  assume "k = KEY_pageDown" with assms(2) show ?thesis
    by (simp add: onData_def isCtrlC_def isEsc_def isEnter_def isSpaceKey_def isChar_def
        KEY_up_def KEY_down_def KEY_pageUp_def KEY_pageDown_def)
next
  assume "k = KEY_home" with assms(2) show ?thesis
    by (simp add: onData_def isCtrlC_def isEsc_def isEnter_def isSpaceKey_def isChar_def
        KEY_up_def KEY_down_def KEY_pageUp_def KEY_pageDown_def KEY_home_def)
next
  assume "k = KEY_end" with assms(2) show ?thesis
    by (simp add: onData_def isCtrlC_def isEsc_def isEnter_def isSpaceKey_def isChar_def
        KEY_up_def KEY_down_def KEY_pageUp_def KEY_pageDown_def KEY_home_def KEY_end_def)
qed

lemma nav_idle:
  assumes "isNavKey k" "idle st"
  shows "idle (onData items rows st k)"
proof -
  have "\<not> is_done st" using assms(2) by (simp add: idle_def)
  from nav_onData [OF assms(1) this, of items rows] show ?thesis
    using assms(2) by (elim disjE) (simp_all add: idle_def move_frame)
qed

lemma session_nav_idle:
  "\<forall>k \<in> set ks. isNavKey (snd k) \<Longrightarrow> idle (session items ks)"
proof (induction ks rule: rev_induct)
  case Nil
  then show ?case by (simp add: session_def idle_def initialState_def)
next
  case (snoc k ks)
  obtain rows buf where k: "k = (rows, buf)" by (cases k)
  from snoc show ?case by (simp add: k session_snoc nav_idle)
qed

lemma session_append:
  "session items (ks @ ks') =
   foldl (\<lambda>st (rows, buf). onData items rows st buf) (session items ks) ks'"
  by (simp add: session_def)

lemma done_stays:
  "is_done st \<Longrightarrow> foldl (\<lambda>st (rows, buf). onData items rows st buf) st ks = st"
  by (induction ks) (auto simp: onData_def)

lemma space_enter_any:
  assumes "\<forall>k \<in> set ks. isNavKey (snd k)" "isEnter e"
  shows "resolved (session items (ks @ [(r1, [32]), (r2, e)])) =
         Some \<lparr>cancelled = False,
               selected = selectedItems items {index (session items ks)}\<rparr>"
proof -
  let ?st = "session items ks"
  have i: "idle ?st" using assms(1) by (rule session_nav_idle)
  have s: "onData items r1 ?st [32] = ?st\<lparr>selected_set := {index ?st}\<rparr>"
    using i by (simp add: onData_def idle_def isCtrlC_def isEsc_def isEnter_def isSpaceKey_def
        toggleSelected_def)
  have ne: "\<not> isCtrlC e" "\<not> isEsc e"
    using assms(2) by (auto simp: isEnter_def isCtrlC_def isEsc_def)
  have "resolved (onData items r2 (?st\<lparr>selected_set := {index ?st}\<rparr>) e) =
        Some \<lparr>cancelled = False, selected = selectedItems items {index ?st}\<rparr>"
    using i ne assms(2) by (simp add: onData_def idle_def finish_def)
  then show ?thesis
    using s by (simp add: session_append)
qed

lemma space_enter:
  assumes "items \<noteq> []" "\<forall>k \<in> set ks. isNavKey (snd k)" "isEnter e"
  shows "resolved (session items (ks @ [(r1, [32]), (r2, e)])) =
         Some \<lparr>cancelled = False, selected = [items ! nat (index (session items ks))]\<rparr>"
proof -
  have b: "0 \<le> index (session items ks)" "index (session items ks) < int (length items)"
    using session_onItem [OF assms(1), of ks] by (auto simp: onItem_def)
  show ?thesis
    using space_enter_any [OF assms(2,3), of items r1 r2] selectedItems_single [OF b] by simp
qed

lemma space_enter_empty:
  assumes "\<forall>k \<in> set ks. isNavKey (snd k)" "isEnter e"
  shows "resolved (session [] (ks @ [(r1, [32]), (r2, e)])) =
         Some \<lparr>cancelled = False, selected = []\<rparr>"
  using space_enter_any [OF assms, of "[]" r1 r2] by (simp add: selectedItems_def)

lemma onData_cancel:
  assumes "\<not> is_done st" "isEsc c \<or> isCtrlC c"
  shows "is_done (onData items rows st c)"
    and "resolved (onData items rows st c) = Some \<lparr>cancelled = True, selected = []\<rparr>"
proof -
  show "is_done (onData items rows st c)"
  proof (cases "isCtrlC c")
    case True
    with assms(1) show ?thesis by (simp add: onData_def finish_def)
  next
    case False
    with assms show ?thesis by (simp add: onData_def finish_def)
  qed
  show "resolved (onData items rows st c) = Some \<lparr>cancelled = True, selected = []\<rparr>"
  proof (cases "isCtrlC c")
    case True
    with assms(1) show ?thesis by (simp add: onData_def finish_def)
  next
    case False
    with assms show ?thesis by (simp add: onData_def finish_def)
  qed
qed

lemma cancel_any:
  assumes "\<not> is_done (session items ks)" "isEsc c \<or> isCtrlC c"
  shows "resolved (session items (ks @ (rows, c) # rest)) =
         Some \<lparr>cancelled = True, selected = []\<rparr>"
proof -
  let ?st = "session items ks"
  have "session items (ks @ (rows, c) # rest) =
        foldl (\<lambda>st (rows, buf). onData items rows st buf) (onData items rows ?st c) rest"
    by (simp add: session_def)
  also have "\<dots> = onData items rows ?st c"
    by (rule done_stays) (rule onData_cancel(1) [OF assms])
  finally show ?thesis by (simp add: onData_cancel(2) [OF assms])
qed

lemma ctrlc_exit:
  assumes "\<not> is_done (session items ks)"
  shows "exitCode (session items (ks @ (rows, [3]) # rest)) = Some 130"
proof -
  let ?st = "session items ks"
  have c: "isEsc [3] \<or> isCtrlC [3]" by (simp add: isCtrlC_def)
  have "session items (ks @ (rows, [3]) # rest) =
        foldl (\<lambda>st (rows, buf). onData items rows st buf) (onData items rows ?st [3]) rest"
    by (simp add: session_def)
  also have "\<dots> = onData items rows ?st [3]"
    by (rule done_stays) (rule onData_cancel(1) [OF assms c])
  finally show ?thesis using assms by (simp add: onData_def finish_def isCtrlC_def)
qed

text \<open>
  Claim C6 (resolution). Whatever the height of the terminal at each keystroke: in a
  list with at least one item, after any navigation keys, Space on the cursor's index
  \<open>i\<close> and then Enter resolve the session with \<open>cancelled: false\<close> and exactly the item
  at \<open>i\<close> selected; in an empty list, where the cursor is on no item, they resolve it
  with nothing selected. Esc or Ctrl-C, pressed at any point before the session has
  resolved, resolve it with \<open>cancelled: true\<close> and an empty selection, whatever was
  toggled before and whatever is typed after; Ctrl-C sets the exit code 130 as well.
\<close>

theorem selection_resolution:
  "(items \<noteq> [] \<and> (\<forall>k \<in> set ks. isNavKey (snd k)) \<and> isEnter e \<longrightarrow>
      0 \<le> index (session items ks) \<and> index (session items ks) < int (length items) \<and>
      resolved (session items (ks @ [(r1, [32]), (r2, e)])) =
        Some \<lparr>cancelled = False, selected = [items ! nat (index (session items ks))]\<rparr>)
   \<and> ((\<forall>k \<in> set ks. isNavKey (snd k)) \<and> isEnter e \<longrightarrow>
      resolved (session [] (ks @ [(r1, [32]), (r2, e)])) =
        Some \<lparr>cancelled = False, selected = []\<rparr>)
   \<and> (\<not> is_done (session items ks') \<and> (isEsc c \<or> isCtrlC c) \<longrightarrow>
      resolved (session items (ks' @ (r3, c) # rest)) =
        Some \<lparr>cancelled = True, selected = []\<rparr>)
   \<and> (\<not> is_done (session items ks') \<longrightarrow>
      exitCode (session items (ks' @ (r3, [3]) # rest)) = Some 130)"
proof (intro conjI impI)
  assume a: "items \<noteq> [] \<and> (\<forall>k \<in> set ks. isNavKey (snd k)) \<and> isEnter e"
  then have b: "onItem items (session items ks)"
    by (simp add: session_onItem)
  from b show "0 \<le> index (session items ks)"
    by (simp add: onItem_def)
  from b show "index (session items ks) < int (length items)"
    by (simp add: onItem_def)
  from a show "resolved (session items (ks @ [(r1, [32]), (r2, e)])) =
      Some \<lparr>cancelled = False, selected = [items ! nat (index (session items ks))]\<rparr>"
    by (simp add: space_enter)
next
  assume "(\<forall>k \<in> set ks. isNavKey (snd k)) \<and> isEnter e"
  then show "resolved (session [] (ks @ [(r1, [32]), (r2, e)])) =
      Some \<lparr>cancelled = False, selected = []\<rparr>"
    by (simp add: space_enter_empty)
next
  assume "\<not> is_done (session items ks') \<and> (isEsc c \<or> isCtrlC c)"
  then show "resolved (session items (ks' @ (r3, c) # rest)) =
      Some \<lparr>cancelled = True, selected = []\<rparr>"
    by (simp add: cancel_any)
next
  assume "\<not> is_done (session items ks')"
  then show "exitCode (session items (ks' @ (r3, [3]) # rest)) = Some 130"
    by (rule ctrlc_exit)
qed

theorem selection_resolution_witness:
  "resolved (session [node3000, vite5173] [(Some 24, KEY_down), (Some 40, [32]), (None, [13])]) =
     Some \<lparr>cancelled = False, selected = [vite5173]\<rparr>
   \<and> resolved (session [node3000, vite5173]
        [(None, [32]), (Some 30, KEY_down), (Some 30, [32]), (Some 12, [27]), (None, [13])]) =
     Some \<lparr>cancelled = True, selected = []\<rparr>
   \<and> exitCode (session [node3000, vite5173]
        [(None, [32]), (Some 30, KEY_down), (Some 30, [32]), (Some 12, [3]), (None, [13])]) = Some 130"
  using selection_resolution [of "[node3000, vite5173]" "[(Some 24, KEY_down)]" "[13]"
      "Some 40" None "[(None, [32]), (Some 30, KEY_down), (Some 30, [32])]" "[27]" "Some 12"
      "[(None, [13])]"]
  by (simp add: tui_eval)

section \<open>Properties of the parsers\<close>

lemma splitWs_from_nonempty:
  "(cur \<noteq> [] \<or> s \<noteq> []) \<Longrightarrow> (s \<noteq> [] \<longrightarrow> \<not> isSpace (last s)) \<Longrightarrow>
   (cur = [] \<and> s \<noteq> [] \<and> isSpace (hd s) \<longrightarrow> inRun) \<Longrightarrow>
   [] \<notin> set (splitWs_from inRun cur s)"
proof (induction s arbitrary: inRun cur)
  case Nil
  then show ?case by simp
next
  case (Cons c cs)
  show ?case
  proof (cases "isSpace c")
    case True
    with Cons.prems(2) have cs: "cs \<noteq> []" by auto
    with Cons.prems(2) have l: "cs \<noteq> [] \<longrightarrow> \<not> isSpace (last cs)" by simp
    have r: "[] \<notin> set (splitWs_from True [] cs)"
      by (rule Cons.IH) (use cs l in auto)
    show ?thesis
    proof (cases inRun)
      case True
      with \<open>isSpace c\<close> r show ?thesis by simp
    next
      case False
      with Cons.prems(3) \<open>isSpace c\<close> have "cur \<noteq> []" by auto
      with False \<open>isSpace c\<close> r show ?thesis by simp
    qed
  next
    case False
    have "[] \<notin> set (splitWs_from False (c # cur) cs)"
      by (rule Cons.IH) (use Cons.prems(2) in \<open>auto split: if_splits\<close>)
    with False show ?thesis by simp
  qed
qed

lemma dropWhile_hd_last:
  assumes "dropWhile P xs \<noteq> []"
  shows "\<not> P (hd (dropWhile P xs))" "last (dropWhile P xs) = last xs"
proof -
  show "\<not> P (hd (dropWhile P xs))" using assms by (rule hd_dropWhile)
  have "xs = takeWhile P xs @ dropWhile P xs" by simp
  then show "last (dropWhile P xs) = last xs" using assms by (metis last_appendR)
qed

lemma trim_ends:
  assumes "trim s \<noteq> []"
  shows "\<not> isSpace (hd (trim s))" "\<not> isSpace (last (trim s))"
proof -
  define ys where "ys = dropWhile isSpace s"
  define zs where "zs = dropWhile isSpace (rev ys)"
  have t: "trim s = rev zs" by (simp add: trim_def ys_def zs_def)
  have z: "zs \<noteq> []" using assms t by simp
  have ys: "ys \<noteq> []"
  proof
    assume "ys = []"
    then have "zs = []" by (simp add: zs_def)
    with z show False by simp
  qed
  have "last (trim s) = hd zs" using z t by (simp add: last_rev)
  then show "\<not> isSpace (last (trim s))"
    using dropWhile_hd_last(1) [of isSpace "rev ys"] z by (simp add: zs_def)
  have "hd (trim s) = last zs" using z t by (simp add: hd_rev)
  also have "\<dots> = last (rev ys)"
    using dropWhile_hd_last(2) [of isSpace "rev ys"] z by (simp add: zs_def)
  also have "\<dots> = hd ys" using ys by (simp add: last_rev)
  finally show "\<not> isSpace (hd (trim s))"
    using dropWhile_hd_last(1) [of isSpace s] ys by (simp add: ys_def)
qed

lemma splitWs_trim_nonempty:
  assumes "trim s \<noteq> []"
  shows "[] \<notin> set (splitWs (trim s))"
  unfolding splitWs_def
  by (rule splitWs_from_nonempty) (use assms trim_ends [OF assms] in auto)

lemma splitWs_from_hd:
  "\<not> inRun \<Longrightarrow> hd (splitWs_from inRun cur s) = rev cur @ takeWhile (\<lambda>c. \<not> isSpace c) s"
  by (induction s arbitrary: cur) auto

lemma splitWs_hd: "hd (splitWs s) = takeWhile (\<lambda>c. \<not> isSpace c) s"
  by (simp add: splitWs_def splitWs_from_hd)

lemma splitWs_from_not_Nil: "splitWs_from inRun cur s \<noteq> []"
  by (induction s arbitrary: inRun cur) auto

lemma length_map_filter_le: "length (List.map_filter f xs) \<le> length xs"
  by (simp add: List.map_filter_def)

lemma splitLines_from_one: "10 \<notin> set s \<Longrightarrow> splitLines_from cur s = [rev cur @ s]"
  by (induction cur s rule: splitLines_from.induct) auto

lemma splitLines_one: "10 \<notin> set s \<Longrightarrow> splitLines s = [s]"
  by (simp add: splitLines_def splitLines_from_one)

text \<open>Numbers of up to 53 bits are doubles, and numbers from \<open>2^1024\<close> on are read as
  \<open>Infinity\<close>.\<close>

lemma bitLength_le: "(bitLength n \<le> k) = (n < 2 ^ k)"
proof (induction n arbitrary: k rule: bitLength.induct)
  case (1 n)
  show ?case
  proof (cases "n = 0")
    case True
    then show ?thesis by (subst bitLength.simps) simp
  next
    case False
    show ?thesis
    proof (cases k)
      case 0
      with False show ?thesis by (subst bitLength.simps) simp
    next
      case (Suc j)
      have "(bitLength n \<le> k) = (bitLength (n div 2) \<le> j)"
        using False Suc by (subst bitLength.simps) simp
      also have "\<dots> = (n div 2 < 2 ^ j)" using 1 [OF False] .
      also have "\<dots> = (n < 2 ^ k)" using Suc by auto
      finally show ?thesis .
    qed
  qed
qed

lemma toDouble_small: "n < 2 ^ 53 \<Longrightarrow> toDouble n = Some n"
  by (simp add: toDouble_def bitLength_le)

lemma toDouble_huge:
  assumes "2 ^ 1024 \<le> n"
  shows "toDouble n = None"
proof -
  define k where "k = bitLength n"
  have k: "1024 < k"
  proof (rule ccontr)
    assume "\<not> 1024 < k"
    then have "bitLength n \<le> 1024" by (simp add: k_def)
    then have "n < 2 ^ 1024" by (simp only: bitLength_le)
    with assms show False by simp
  qed
  define s where "s = k - 53"
  have ks: "k = Suc (52 + s)" using k by (simp add: s_def)
  have "\<not> bitLength n \<le> 52 + s" using ks by (simp add: k_def)
  then have "\<not> n < 2 ^ (52 + s)" by (simp add: bitLength_le)
  then have "(2::nat) ^ 52 * 2 ^ s \<le> n" by (simp add: power_add)
  then have q: "2 ^ 52 \<le> n div 2 ^ s"
    by (simp add: less_eq_div_iff_mult_less_eq)
  have "(2::nat) ^ 1024 \<le> 2 ^ (52 + s)"
    using k by (intro power_increasing) (simp_all add: s_def)
  also have "\<dots> = 2 ^ 52 * 2 ^ s" by (simp add: power_add)
  also have "\<dots> \<le> (n div 2 ^ s) * 2 ^ s" using q by simp
  finally have a: "2 ^ 1024 \<le> (n div 2 ^ s) * 2 ^ s" .
  then have b: "2 ^ 1024 \<le> (n div 2 ^ s + 1) * 2 ^ s"
    by (metis add_mult_distrib le_add1 le_trans)
  have "\<not> k \<le> 53" using k by simp
  then show ?thesis
    using a b by (simp add: toDouble_def Let_def k_def [symmetric] s_def [symmetric])
qed

lemma ss_short: "length (splitWs line) < 5 \<Longrightarrow> parseSs_line prot src line = None"
  by (simp add: parseSs_line_def)

lemma lowerUnits_not_Nil: "lowerUnits a \<noteq> []"
  by (simp add: lowerUnits_def)

lemma lower_u: "hd (lowerUnits a) = 117 \<Longrightarrow> canonicalize a = 85"
  by (auto simp: lowerUnits_def canonicalize_def split: if_splits)

lemma lower_t: "hd (lowerUnits a) = 116 \<Longrightarrow> canonicalize a = 84"
  by (auto simp: lowerUnits_def canonicalize_def split: if_splits)

lemma ascii_vals:
  "ascii ''tcp'' = [116, 99, 112]" "ascii ''udp'' = [117, 100, 112]"
  "ascii ''proto'' = [112, 114, 111, 116, 111]" "ascii ''active'' = [97, 99, 116, 105, 118, 101]"
  by (simp_all add: ascii_def)

lemma first_field_head:
  assumes "toLowerCase (splitWs line ! 0) = x # xs"
  shows "\<exists>a rest. line = a # rest \<and> hd (lowerUnits a) = x"
proof -
  have n: "splitWs line \<noteq> []" by (simp add: splitWs_def splitWs_from_not_Nil)
  then have "splitWs line ! 0 = takeWhile (\<lambda>c. \<not> isSpace c) line"
    using splitWs_hd [of line] by (simp add: hd_conv_nth)
  with assms have t: "concat (map lowerUnits (takeWhile (\<lambda>c. \<not> isSpace c) line)) = x # xs"
    by (simp add: toLowerCase_def)
  then obtain a rest where l: "line = a # rest" by (cases line) auto
  with t have "\<not> isSpace a" by (auto split: if_splits)
  with t l have "lowerUnits a @ concat (map lowerUnits (takeWhile (\<lambda>c. \<not> isSpace c) rest)) = x # xs"
    by simp
  then have "hd (lowerUnits a) = x"
    using lowerUnits_not_Nil [of a] by (cases "lowerUnits a") auto
  with l show ?thesis by blast
qed

lemma not_header:
  assumes "toLowerCase (splitWs line ! 0) = ascii ''udp'' \<or> toLowerCase (splitWs line ! 0) = ascii ''tcp''"
  shows "\<not> startsWithCI line (ascii ''proto'')" "\<not> startsWithCI line (ascii ''active'')"
proof -
  from assms obtain a rest where l: "line = a # rest"
    and a: "hd (lowerUnits a) = 117 \<or> hd (lowerUnits a) = 116"
    using first_field_head [of line] by (auto simp: ascii_vals)
  then have u: "canonicalize a = 85 \<or> canonicalize a = 84" using lower_u lower_t by blast
  show "\<not> startsWithCI line (ascii ''proto'')"
    using u l by (auto simp: startsWithCI_def ascii_vals canonicalize_def)
  show "\<not> startsWithCI line (ascii ''active'')"
    using u l by (auto simp: startsWithCI_def ascii_vals canonicalize_def)
qed

lemma netstat_tcp_not_listening:
  assumes "4 \<le> length (splitWs (trim rawLine))"
    and "toLowerCase (splitWs (trim rawLine) ! 0) = ascii ''tcp''"
    and "toLowerCase (splitWs (trim rawLine) ! 3) \<noteq> ascii ''listening''"
  shows "parseNetstat_line proto rawLine = None"
proof (cases "trim rawLine = []")
  case True
  then show ?thesis by (simp add: parseNetstat_line_def)
next
  case False
  have "splitWs (trim rawLine) ! 3 \<in> set (splitWs (trim rawLine))"
    using assms(1) by simp
  then have s: "splitWs (trim rawLine) ! 3 \<noteq> []"
    using splitWs_trim_nonempty [OF False] by metis
  show ?thesis
    using assms s by (simp add: parseNetstat_line_def Let_def at_def)
qed

lemma netstat_udp_line:
  assumes "4 \<le> length (splitWs (trim rawLine))"
    and "toLowerCase (splitWs (trim rawLine) ! 0) = ascii ''udp''"
  shows "parseNetstat_line proto rawLine =
         (case parseInt (Some (splitWs (trim rawLine) ! 3)) of
            Finite p \<Rightarrow>
              (case parseWindowsAddressPort (splitWs (trim rawLine) ! 1) of
                 (None, address) \<Rightarrow> None
               | (Some prt, address) \<Rightarrow>
                   if prt = 0 then None
                   else Some \<lparr>protocol = proto, port = prt, pid = p, localAddress = address,
                              processName = None, command = None, user = None,
                              raw = Some rawLine, source = Some (ascii ''netstat'')\<rparr>)
          | _ \<Rightarrow> None)"
proof -
  have ne: "trim rawLine \<noteq> []"
  proof
    assume "trim rawLine = []"
    then have "splitWs (trim rawLine) = [[]]" by (simp add: splitWs_def)
    with assms(1) show False by simp
  qed
  have h: "\<not> startsWithCI (trim rawLine) (ascii ''proto'')"
          "\<not> startsWithCI (trim rawLine) (ascii ''active'')"
    using not_header [of "trim rawLine"] assms(2) by auto
  have d: "ascii ''udp'' \<noteq> ascii ''tcp''" by (simp add: ascii_vals)
  show ?thesis
    using assms ne h d
    by (simp add: parseNetstat_line_def Let_def at_def split: number.splits)
qed

lemma netstat_udp_kept:
  assumes "4 \<le> length (splitWs (trim rawLine))"
    and "toLowerCase (splitWs (trim rawLine) ! 0) = ascii ''udp''"
    and "parseWindowsAddressPort (splitWs (trim rawLine) ! 1) = (Some prt, addr)"
    and "prt \<noteq> 0"
    and "parseInt (Some (splitWs (trim rawLine) ! 3)) = Finite p"
  shows "parseNetstat_line proto rawLine =
         Some \<lparr>protocol = proto, port = prt, pid = p, localAddress = addr, processName = None,
               command = None, user = None, raw = Some rawLine,
               source = Some (ascii ''netstat'')\<rparr>"
  using netstat_udp_line [OF assms(1,2), of proto] assms(3-5) by simp

lemma netstat_udp_dropped:
  assumes "4 \<le> length (splitWs (trim rawLine))"
    and "toLowerCase (splitWs (trim rawLine) ! 0) = ascii ''udp''"
    and "fst (parseWindowsAddressPort (splitWs (trim rawLine) ! 1)) = Some 0
         \<or> fst (parseWindowsAddressPort (splitWs (trim rawLine) ! 1)) = None
         \<or> \<not> Number_isFinite (parseInt (Some (splitWs (trim rawLine) ! 3)))"
  shows "parseNetstat_line proto rawLine = None"
  using netstat_udp_line [OF assms(1,2), of proto] assms(3)
  by (auto simp: Number_isFinite_def split: number.splits prod.splits option.splits)

lemma parseSs_length: "length (parseSs out prot src) \<le> length (splitLines out)"
proof -
  have "length (parseSs out prot src) \<le> length (filter (\<lambda>l. l \<noteq> []) (map trim (splitLines out)))"
    unfolding parseSs_def by (rule length_map_filter_le)
  also have "\<dots> \<le> length (map trim (splitLines out))" by (rule length_filter_le)
  finally show ?thesis by simp
qed

lemma parseNetstat_length: "length (parseNetstat out proto) \<le> length (splitLines out)"
  unfolding parseNetstat_def by (rule length_map_filter_le)

text \<open>The result of a parser is made line by line, each line of the output giving its
  record or nothing.\<close>

lemma map_filter_concat:
  "List.map_filter f xs = concat (map (\<lambda>x. case f x of None \<Rightarrow> [] | Some y \<Rightarrow> [y]) xs)"
  by (induction xs) (auto split: option.splits)

lemma parseSs_lines:
  "parseSs out prot src =
   concat (map (\<lambda>ln. if trim ln = [] then []
                    else case parseSs_line prot src (trim ln) of None \<Rightarrow> [] | Some x \<Rightarrow> [x])
             (splitLines out))"
proof -
  have "List.map_filter g (filter (\<lambda>l. l \<noteq> []) (map trim xs)) =
        concat (map (\<lambda>ln. if trim ln = [] then []
                         else case g (trim ln) of None \<Rightarrow> [] | Some x \<Rightarrow> [x]) xs)" for g xs
    by (induction xs) (auto split: option.splits)
  then show ?thesis by (simp add: parseSs_def)
qed

lemma parseNetstat_lines:
  "parseNetstat out proto =
   concat (map (\<lambda>ln. case parseNetstat_line proto ln of None \<Rightarrow> [] | Some x \<Rightarrow> [x])
             (splitLines out))"
  by (simp add: parseNetstat_def map_filter_concat)

lemma parseSs_one:
  assumes "10 \<notin> set line"
  shows "parseSs line prot src =
         (if trim line = [] then []
          else case parseSs_line prot src (trim line) of None \<Rightarrow> [] | Some r \<Rightarrow> [r])"
  by (simp add: parseSs_def splitLines_one [OF assms] split: option.splits)

lemma parseNetstat_one:
  assumes "10 \<notin> set rawLine"
  shows "parseNetstat rawLine proto =
         (case parseNetstat_line proto rawLine of None \<Rightarrow> [] | Some r \<Rightarrow> [r])"
  by (simp add: parseNetstat_def splitLines_one [OF assms] split: option.splits)

lemma parseSs_line_Some:
  assumes "parseSs_line prot src line = Some l"
  shows "5 \<le> length (splitWs line) \<and>
         fst (parseAddrPort (splitWs line ! 3)) = Some (port l) \<and> port l \<noteq> 0 \<and>
         parseSsPid (joinSp (drop 5 (splitWs line))) = Some (pid l) \<and> pid l \<noteq> 0"
  using assms
  by (auto simp: parseSs_line_def Let_def at_def split: if_splits prod.splits option.splits)

lemma parseNetstat_line_Some:
  assumes "parseNetstat_line proto rawLine = Some l"
  shows "4 \<le> length (splitWs (trim rawLine)) \<and>
         (toLowerCase (splitWs (trim rawLine) ! 0) = ascii ''udp'' \<and>
          parseInt (Some (splitWs (trim rawLine) ! 3)) = Finite (pid l) \<or>
          toLowerCase (splitWs (trim rawLine) ! 0) = ascii ''tcp'' \<and>
          toLowerCase (splitWs (trim rawLine) ! 3) = ascii ''listening'' \<and>
          5 \<le> length (splitWs (trim rawLine)) \<and>
          parseInt (Some (splitWs (trim rawLine) ! 4)) = Finite (pid l)) \<and>
         fst (parseWindowsAddressPort (splitWs (trim rawLine) ! 1)) = Some (port l) \<and>
         port l \<noteq> 0"
proof -
  have ne: "trim rawLine \<noteq> []" using assms by (auto simp: parseNetstat_line_def)
  have len: "4 \<le> length (splitWs (trim rawLine))"
    using assms ne by (auto simp: parseNetstat_line_def Let_def split: if_splits)
  then have "splitWs (trim rawLine) ! 3 \<in> set (splitWs (trim rawLine))" by simp
  then have s: "splitWs (trim rawLine) ! 3 \<noteq> []"
    using splitWs_trim_nonempty [OF ne] by metis
  show ?thesis
    using assms ne len s
    by (auto simp: parseNetstat_line_def Let_def at_def parseInt_def
        split: if_splits prod.splits option.splits number.splits)
qed

lemma parseInt_digits:
  assumes "ds \<noteq> []" "list_all isDigit ds"
  shows "parseInt (Some ds) =
         (case toDouble (digitsValue ds) of None \<Rightarrow> PosInfinity | Some v \<Rightarrow> Finite (int v))"
proof -
  obtain c cs where d: "ds = c # cs" using assms(1) by (cases ds) auto
  have c: "isDigit c" using assms(2) d by simp
  then have s: "\<not> isSpace c" "c \<noteq> 45" "c \<noteq> 43"
    by (auto simp: isDigit_def isSpace_def)
  have t: "takeWhile isDigit (c # cs) = c # cs"
    using assms(2) d by (simp add: list_all_iff takeWhile_eq_all_conv)
  show ?thesis
    using s t by (simp add: d parseInt_def parseDigits_def Let_def split: option.splits)
qed

text \<open>
  Claim C3 (parser robustness). The parsers are total functions. What \<open>parseSs\<close> and
  \<open>parseNetstat\<close> give is made line by line, in the order of the output, each line
  giving at most one record, and a line that is not of the expected shape none:
  \<^item> an \<open>ss\<close> line with fewer than five fields gives no record, and a line that gives one
    has five fields, a port that is not 0 after the last colon of the fourth and a
    \<open>pid=\<close> with a number that is not 0 among the rest;
  \<^item> a \<open>netstat\<close> line whose first field is \<open>tcp\<close> (in any case) and whose fourth, the
    state, is not \<open>listening\<close> gives no record;
  \<^item> a \<open>netstat\<close> line whose first field is \<open>udp\<close> is kept, with the port and the pid
    read, when its second field parses as an address with a port that is not 0 and
    its fourth as a finite number; it gives no record when the port is 0, when the
    second field does not parse, or when the fourth is not a finite number (it has no
    digit to start with, or its value is \<open>2^1024\<close> or more);
  \<^item> a \<open>netstat\<close> line that gives a record has four fields, is a UDP line or a
    listening TCP line, and has a port that is not 0 and a PID column that is a
    finite number.
\<close>

theorem parser_robustness:
  "(length (splitWs line) < 5 \<longrightarrow> parseSs_line prot src line = None)
   \<and> (parseSs_line prot src line = Some l \<longrightarrow>
        5 \<le> length (splitWs line) \<and>
        fst (parseAddrPort (splitWs line ! 3)) = Some (port l) \<and> port l \<noteq> 0 \<and>
        parseSsPid (joinSp (drop 5 (splitWs line))) = Some (pid l) \<and> pid l \<noteq> 0)
   \<and> (4 \<le> length (splitWs (trim rawLine)) \<and>
       toLowerCase (splitWs (trim rawLine) ! 0) = ascii ''tcp'' \<and>
       toLowerCase (splitWs (trim rawLine) ! 3) \<noteq> ascii ''listening''
       \<longrightarrow> parseNetstat_line proto rawLine = None)
   \<and> (4 \<le> length (splitWs (trim rawLine)) \<and>
       toLowerCase (splitWs (trim rawLine) ! 0) = ascii ''udp'' \<and>
       parseWindowsAddressPort (splitWs (trim rawLine) ! 1) = (Some prt, addr) \<and> prt \<noteq> 0 \<and>
       parseInt (Some (splitWs (trim rawLine) ! 3)) = Finite p
       \<longrightarrow> parseNetstat_line proto rawLine =
            Some \<lparr>protocol = proto, port = prt, pid = p, localAddress = addr,
                  processName = None, command = None, user = None, raw = Some rawLine,
                  source = Some (ascii ''netstat'')\<rparr>)
   \<and> (4 \<le> length (splitWs (trim rawLine)) \<and>
       toLowerCase (splitWs (trim rawLine) ! 0) = ascii ''udp'' \<and>
       (fst (parseWindowsAddressPort (splitWs (trim rawLine) ! 1)) = Some 0 \<or>
        fst (parseWindowsAddressPort (splitWs (trim rawLine) ! 1)) = None \<or>
        \<not> Number_isFinite (parseInt (Some (splitWs (trim rawLine) ! 3))))
       \<longrightarrow> parseNetstat_line proto rawLine = None)
   \<and> (parseNetstat_line proto rawLine = Some l' \<longrightarrow>
        4 \<le> length (splitWs (trim rawLine)) \<and>
        (toLowerCase (splitWs (trim rawLine) ! 0) = ascii ''udp'' \<and>
         parseInt (Some (splitWs (trim rawLine) ! 3)) = Finite (pid l') \<or>
         toLowerCase (splitWs (trim rawLine) ! 0) = ascii ''tcp'' \<and>
         toLowerCase (splitWs (trim rawLine) ! 3) = ascii ''listening'' \<and>
         5 \<le> length (splitWs (trim rawLine)) \<and>
         parseInt (Some (splitWs (trim rawLine) ! 4)) = Finite (pid l')) \<and>
        fst (parseWindowsAddressPort (splitWs (trim rawLine) ! 1)) = Some (port l') \<and>
        port l' \<noteq> 0)
   \<and> (ds \<noteq> [] \<and> list_all isDigit ds \<and> 2 ^ 1024 \<le> digitsValue ds
       \<longrightarrow> parseInt (Some ds) = PosInfinity)
   \<and> parseSs out prot src =
       concat (map (\<lambda>ln. if trim ln = [] then []
                        else case parseSs_line prot src (trim ln) of None \<Rightarrow> [] | Some x \<Rightarrow> [x])
                 (splitLines out))
   \<and> parseNetstat out proto =
       concat (map (\<lambda>ln. case parseNetstat_line proto ln of None \<Rightarrow> [] | Some x \<Rightarrow> [x])
                 (splitLines out))
   \<and> (10 \<notin> set line \<longrightarrow>
        parseSs line prot src =
          (if trim line = [] then []
           else case parseSs_line prot src (trim line) of None \<Rightarrow> [] | Some x \<Rightarrow> [x]))
   \<and> (10 \<notin> set rawLine \<longrightarrow>
        parseNetstat rawLine proto =
          (case parseNetstat_line proto rawLine of None \<Rightarrow> [] | Some x \<Rightarrow> [x]))
   \<and> length (parseSs out prot src) \<le> length (splitLines out)
   \<and> length (parseNetstat out proto) \<le> length (splitLines out)"
proof (intro conjI impI)
  assume "length (splitWs line) < 5"
  then show "parseSs_line prot src line = None" by (rule ss_short)
next
  assume a: "parseSs_line prot src line = Some l"
  from parseSs_line_Some [OF a] show "5 \<le> length (splitWs line)" by simp
  from parseSs_line_Some [OF a] show "fst (parseAddrPort (splitWs line ! 3)) = Some (port l)" by simp
  from parseSs_line_Some [OF a] show "port l \<noteq> 0" by simp
  from parseSs_line_Some [OF a] show "parseSsPid (joinSp (drop 5 (splitWs line))) = Some (pid l)" by simp
  from parseSs_line_Some [OF a] show "pid l \<noteq> 0" by simp
next
  assume "4 \<le> length (splitWs (trim rawLine)) \<and>
       toLowerCase (splitWs (trim rawLine) ! 0) = ascii ''tcp'' \<and>
       toLowerCase (splitWs (trim rawLine) ! 3) \<noteq> ascii ''listening''"
  then show "parseNetstat_line proto rawLine = None"
    using netstat_tcp_not_listening [of rawLine proto] by simp
next
  assume "4 \<le> length (splitWs (trim rawLine)) \<and>
       toLowerCase (splitWs (trim rawLine) ! 0) = ascii ''udp'' \<and>
       parseWindowsAddressPort (splitWs (trim rawLine) ! 1) = (Some prt, addr) \<and> prt \<noteq> 0 \<and>
       parseInt (Some (splitWs (trim rawLine) ! 3)) = Finite p"
  then show "parseNetstat_line proto rawLine =
            Some \<lparr>protocol = proto, port = prt, pid = p, localAddress = addr,
                  processName = None, command = None, user = None, raw = Some rawLine,
                  source = Some (ascii ''netstat'')\<rparr>"
    using netstat_udp_kept [of rawLine prt addr p proto] by simp
next
  assume "4 \<le> length (splitWs (trim rawLine)) \<and>
       toLowerCase (splitWs (trim rawLine) ! 0) = ascii ''udp'' \<and>
       (fst (parseWindowsAddressPort (splitWs (trim rawLine) ! 1)) = Some 0 \<or>
        fst (parseWindowsAddressPort (splitWs (trim rawLine) ! 1)) = None \<or>
        \<not> Number_isFinite (parseInt (Some (splitWs (trim rawLine) ! 3))))"
  then show "parseNetstat_line proto rawLine = None"
    using netstat_udp_dropped [of rawLine proto] by blast
next
  assume a: "parseNetstat_line proto rawLine = Some l'"
  from parseNetstat_line_Some [OF a] show "4 \<le> length (splitWs (trim rawLine))" by simp
  from parseNetstat_line_Some [OF a]
  show "toLowerCase (splitWs (trim rawLine) ! 0) = ascii ''udp'' \<and>
         parseInt (Some (splitWs (trim rawLine) ! 3)) = Finite (pid l') \<or>
         toLowerCase (splitWs (trim rawLine) ! 0) = ascii ''tcp'' \<and>
         toLowerCase (splitWs (trim rawLine) ! 3) = ascii ''listening'' \<and>
         5 \<le> length (splitWs (trim rawLine)) \<and>
         parseInt (Some (splitWs (trim rawLine) ! 4)) = Finite (pid l')" by simp
  from parseNetstat_line_Some [OF a]
  show "fst (parseWindowsAddressPort (splitWs (trim rawLine) ! 1)) = Some (port l')" by simp
  from parseNetstat_line_Some [OF a] show "port l' \<noteq> 0" by simp
next
  assume "ds \<noteq> [] \<and> list_all isDigit ds \<and> 2 ^ 1024 \<le> digitsValue ds"
  then show "parseInt (Some ds) = PosInfinity"
    by (simp add: parseInt_digits toDouble_huge)
next
  show "parseSs out prot src =
       concat (map (\<lambda>ln. if trim ln = [] then []
                        else case parseSs_line prot src (trim ln) of None \<Rightarrow> [] | Some x \<Rightarrow> [x])
                 (splitLines out))"
    by (rule parseSs_lines)
next
  show "parseNetstat out proto =
       concat (map (\<lambda>ln. case parseNetstat_line proto ln of None \<Rightarrow> [] | Some x \<Rightarrow> [x])
                 (splitLines out))"
    by (rule parseNetstat_lines)
next
  assume "10 \<notin> set line"
  then show "parseSs line prot src =
          (if trim line = [] then []
           else case parseSs_line prot src (trim line) of None \<Rightarrow> [] | Some x \<Rightarrow> [x])"
    by (rule parseSs_one)
next
  assume "10 \<notin> set rawLine"
  then show "parseNetstat rawLine proto =
          (case parseNetstat_line proto rawLine of None \<Rightarrow> [] | Some x \<Rightarrow> [x])"
    by (rule parseNetstat_one)
next
  show "length (parseSs out prot src) \<le> length (splitLines out)" by (rule parseSs_length)
next
  show "length (parseNetstat out proto) \<le> length (splitLines out)" by (rule parseNetstat_length)
qed

lemmas str_eval = ascii_def splitWs_def isSpace_def isDigit_def isLineTerminator_def trim_def
  toLowerCase_def lowerUnits_def toUpperCase_def upperUnits_def canonicalize_def
  parseInt_def parseDigits_def digitsValue_def toDouble_small at_def Let_def

lemma splitWs_from_word:
  "\<forall>c \<in> set s. \<not> isSpace c \<Longrightarrow> splitWs_from b cur s = [rev cur @ s]"
  by (induction s arbitrary: b cur) auto

lemma digitsValue_nines: "digitsValue (replicate n 57) = 10 ^ n - 1"
proof (induction n)
  case 0
  then show ?case by (simp add: digitsValue_def)
next
  case (Suc n)
  have "digitsValue (replicate (Suc n) 57) = digitsValue (replicate n 57 @ [57])"
    by (simp add: replicate_append_same)
  also have "\<dots> = 10 * (10 ^ n - 1) + 9"
    using Suc by (simp add: digitsValue_snoc)
  also have "\<dots> = 10 ^ Suc n - 1"
  proof -
    have "(1::nat) \<le> 10 ^ n" by simp
    then show ?thesis by (simp add: algebra_simps)
  qed
  finally show ?case .
qed

lemma nines: "2 ^ 1024 \<le> digitsValue (replicate 310 57)"
  by (simp add: digitsValue_nines)

theorem parser_robustness_witness:
  "parseSs_line tcp (ascii ''ss'') ssTruncated = None
   \<and> 5 \<le> length (splitWs ssListening)
   \<and> parseNetstat_line tcp netstatEstablished = None
   \<and> parseNetstat netstatUdp udp =
       [\<lparr>protocol = udp, port = 5353, pid = 4321, localAddress = Some (ascii ''::''),
         processName = None, command = None, user = None, raw = Some netstatUdp,
         source = Some (ascii ''netstat'')\<rparr>]
   \<and> parseNetstat netstatUdpHugePid udp = []
   \<and> parseNetstat netstatOutput tcp =
       [\<lparr>protocol = tcp, port = 135, pid = 988, localAddress = Some (ascii ''0.0.0.0''),
         processName = None, command = None, user = None, raw = Some netstatListening,
         source = Some (ascii ''netstat'')\<rparr>,
        \<lparr>protocol = tcp, port = 5353, pid = 4321, localAddress = Some (ascii ''::''),
         processName = None, command = None, user = None, raw = Some netstatUdp,
         source = Some (ascii ''netstat'')\<rparr>]"
proof -
  have a: "length (splitWs ssTruncated) < 5"
    by (simp add: ssTruncated_def str_eval)
  have a': "parseSs_line tcp (ascii ''ss'') ssListening =
      Some \<lparr>protocol = tcp, port = 22, pid = 812, localAddress = Some (ascii ''0.0.0.0''),
            processName = None, command = None, user = None, raw = Some ssListening,
            source = Some (ascii ''ss'')\<rparr>"
    by (simp add: ssListening_def parseSs_line_def parseAddrPort_def colonDigitsEnd_def
        parseSsPid_def pidDigits_def parseSsName_def usersName_def str_eval)
  have b: "4 \<le> length (splitWs (trim netstatEstablished)) \<and>
       toLowerCase (splitWs (trim netstatEstablished) ! 0) = ascii ''tcp'' \<and>
       toLowerCase (splitWs (trim netstatEstablished) ! 3) \<noteq> ascii ''listening''"
    by (simp add: netstatEstablished_def str_eval)
  have c: "4 \<le> length (splitWs (trim netstatUdp)) \<and>
       toLowerCase (splitWs (trim netstatUdp) ! 0) = ascii ''udp'' \<and>
       parseWindowsAddressPort (splitWs (trim netstatUdp) ! 1) = (Some 5353, Some (ascii ''::'')) \<and>
       (5353::int) \<noteq> 0 \<and>
       parseInt (Some (splitWs (trim netstatUdp) ! 3)) = Finite 4321"
    by (simp add: netstatUdp_def parseWindowsAddressPort_def stripBrackets_def str_eval)
  have c': "10 \<notin> set netstatUdp" by (simp add: netstatUdp_def ascii_def)
  have d: "splitWs (trim netstatUdpHugePid) =
        [ascii ''UDP'', ascii ''[::]:5353'', ascii ''*:*'', replicate 310 57]"
    by (simp add: netstatUdpHugePid_def splitWs_from_word str_eval)
  have d': "10 \<notin> set netstatUdpHugePid" by (simp add: netstatUdpHugePid_def ascii_def)
  have e: "replicate 310 (57::nat) \<noteq> [] \<and> list_all isDigit (replicate 310 57) \<and>
       2 ^ 1024 \<le> digitsValue (replicate 310 57)"
    using nines by (simp add: isDigit_def list_all_iff)
  note t1 = parser_robustness [of ssTruncated tcp "ascii ''ss''"
        "\<lparr>protocol = tcp, port = 22, pid = 812, localAddress = Some (ascii ''0.0.0.0''),
            processName = None, command = None, user = None, raw = Some ssListening,
            source = Some (ascii ''ss'')\<rparr>" netstatEstablished tcp
        5353 "Some (ascii ''::'')" 4321 node3000 "replicate 310 57" "[]"]
  note t2 = parser_robustness [of ssListening tcp "ascii ''ss''"
        "\<lparr>protocol = tcp, port = 22, pid = 812, localAddress = Some (ascii ''0.0.0.0''),
            processName = None, command = None, user = None, raw = Some ssListening,
            source = Some (ascii ''ss'')\<rparr>" netstatUdp udp
        5353 "Some (ascii ''::'')" 4321 node3000 "replicate 310 57" "[]"]
  note t3 = parser_robustness [of "[]" tcp "[]" node3000 netstatUdpHugePid udp
        0 None 0 node3000 "[]" "[]"]
  have r1: "parseSs_line tcp (ascii ''ss'') ssTruncated = None"
    using t1 [THEN conjunct1, THEN mp, OF a] .
  have r2: "5 \<le> length (splitWs ssListening)"
    using t2 [THEN conjunct2, THEN conjunct1, THEN mp, OF a'] by simp
  have r3: "parseNetstat_line tcp netstatEstablished = None"
    using t1 [THEN conjunct2, THEN conjunct2, THEN conjunct1, THEN mp, OF b] .
  have r4: "parseNetstat_line udp netstatUdp =
       Some \<lparr>protocol = udp, port = 5353, pid = 4321, localAddress = Some (ascii ''::''),
         processName = None, command = None, user = None, raw = Some netstatUdp,
         source = Some (ascii ''netstat'')\<rparr>"
    using t2 [THEN conjunct2, THEN conjunct2, THEN conjunct2, THEN conjunct1, THEN mp, OF c] .
  have r5: "parseNetstat netstatUdp udp =
       [\<lparr>protocol = udp, port = 5353, pid = 4321, localAddress = Some (ascii ''::''),
         processName = None, command = None, user = None, raw = Some netstatUdp,
         source = Some (ascii ''netstat'')\<rparr>]"
    using t2 [THEN conjunct2, THEN conjunct2, THEN conjunct2, THEN conjunct2, THEN conjunct2, THEN conjunct2, THEN conjunct2, THEN conjunct2, THEN conjunct2, THEN conjunct2, THEN conjunct1, THEN mp, OF c'] by (simp add: r4)
  have i: "parseInt (Some (replicate 310 57)) = PosInfinity"
    using t1 [THEN conjunct2, THEN conjunct2, THEN conjunct2, THEN conjunct2, THEN conjunct2, THEN conjunct2, THEN conjunct1, THEN mp, OF e] .
  have f: "4 \<le> length (splitWs (trim netstatUdpHugePid)) \<and>
       toLowerCase (splitWs (trim netstatUdpHugePid) ! 0) = ascii ''udp'' \<and>
       (fst (parseWindowsAddressPort (splitWs (trim netstatUdpHugePid) ! 1)) = Some 0 \<or>
        fst (parseWindowsAddressPort (splitWs (trim netstatUdpHugePid) ! 1)) = None \<or>
        \<not> Number_isFinite (parseInt (Some (splitWs (trim netstatUdpHugePid) ! 3))))"
    by (simp add: d i Number_isFinite_def toLowerCase_def lowerUnits_def ascii_def)
  have r6: "parseNetstat_line udp netstatUdpHugePid = None"
    using t3 [THEN conjunct2, THEN conjunct2, THEN conjunct2, THEN conjunct2, THEN conjunct1, THEN mp, OF f] .
  have r7: "parseNetstat netstatUdpHugePid udp = []"
    using t3 [THEN conjunct2, THEN conjunct2, THEN conjunct2, THEN conjunct2, THEN conjunct2, THEN conjunct2, THEN conjunct2, THEN conjunct2, THEN conjunct2, THEN conjunct2, THEN conjunct1, THEN mp, OF d'] by (simp add: r6)
  have g: "parseNetstat netstatOutput tcp =
       [\<lparr>protocol = tcp, port = 135, pid = 988, localAddress = Some (ascii ''0.0.0.0''),
         processName = None, command = None, user = None, raw = Some netstatListening,
         source = Some (ascii ''netstat'')\<rparr>,
        \<lparr>protocol = tcp, port = 5353, pid = 4321, localAddress = Some (ascii ''::''),
         processName = None, command = None, user = None, raw = Some netstatUdp,
         source = Some (ascii ''netstat'')\<rparr>]"
    by (simp add: netstatOutput_def netstatEstablished_def netstatListening_def netstatUdp_def
        parseNetstat_def splitLines_def parseNetstat_line_def
        startsWithCI_def parseWindowsAddressPort_def stripBrackets_def str_eval)
  show ?thesis
    using r1 r2 r3 r5 r7 g by (intro conjI)
qed

text \<open>Not every UDP line whose address and PID parse is kept. The line
  \<open>UDP 0.0.0.0:0 *:* 1234\<close> is one: \<open>parseWindowsAddressPort\<close> gives the address
  \<open>0.0.0.0\<close> with the port 0 and \<open>parseInt\<close> the PID 1234, and the parser drops it, by
  its test \<open>!port\<close>.\<close>

theorem parser_robustness_counterexample:
  "splitWs (trim netstatUdpPortZero) =
     [ascii ''UDP'', ascii ''0.0.0.0:0'', ascii ''*:*'', ascii ''1234'']
   \<and> parseWindowsAddressPort (ascii ''0.0.0.0:0'') = (Some 0, Some (ascii ''0.0.0.0''))
   \<and> parseInt (Some (ascii ''1234'')) = Finite 1234
   \<and> parseNetstat_line udp netstatUdpPortZero = None
   \<and> parseNetstat netstatUdpPortZero udp = []"
  by (simp add: netstatUdpPortZero_def parseNetstat_def splitLines_def
      parseNetstat_line_def startsWithCI_def parseWindowsAddressPort_def stripBrackets_def
      str_eval)

section \<open>Properties of the killers\<close>

lemma running_isInt32: "running w p \<Longrightarrow> isInt32 p"
  by (simp add: running_def)

lemma pk_invalid:
  "\<not> isInt32 p \<Longrightarrow>
   process_kill w p sig = (Some ERR_INVALID_ARG_TYPE, w\<lparr>kills := kills w @ [(p, sig)]\<rparr>)"
  by (simp add: process_kill_def Let_def)

lemma pk_not_running:
  "isInt32 p \<Longrightarrow> \<not> running w p \<Longrightarrow>
   process_kill w p sig = (Some ESRCH, w\<lparr>kills := kills w @ [(p, sig)]\<rparr>)"
  by (auto simp: process_kill_def running_def Let_def split: option.splits)

lemma pk_denied:
  "procs w p = Some pr \<Longrightarrow> running w p \<Longrightarrow> \<not> permitted pr \<Longrightarrow>
   process_kill w p sig = (Some EPERM, w\<lparr>kills := kills w @ [(p, sig)]\<rparr>)"
  by (simp add: process_kill_def Let_def running_isInt32)

lemma pk_sent:
  "procs w p = Some pr \<Longrightarrow> running w p \<Longrightarrow> permitted pr \<Longrightarrow>
   process_kill w p sig =
     (None, w\<lparr>kills := kills w @ [(p, sig)], procs := (procs w)(p \<mapsto> deliver sig (now w) pr)\<rparr>)"
  by (simp add: process_kill_def Let_def running_isInt32)

lemma pk_frame:
  "kills (snd (process_kill w p sig)) = kills w @ [(p, sig)]"
  "execs (snd (process_kill w p sig)) = execs w"
  "now (snd (process_kill w p sig)) = now w"
  "programs (snd (process_kill w p sig)) = programs w"
  "q \<noteq> p \<Longrightarrow> procs (snd (process_kill w p sig)) q = procs w q"
  by (auto simp: process_kill_def Let_def split: option.splits)

lemma pk_ESRCH_iff:
  "(fst (process_kill w p sig) = Some ESRCH) = (isInt32 p \<and> \<not> running w p)"
  by (auto simp: process_kill_def Let_def running_def split: option.splits)

lemma deliver_Sig0: "deliver Sig0 t pr = pr"
  by (simp add: deliver_def)

lemma pk_probe_running:
  assumes "procs w p = Some pr" "running w p"
  shows "process_kill w p Sig0 =
     (if permitted pr then None else Some EPERM, w\<lparr>kills := kills w @ [(p, Sig0)]\<rparr>)"
proof (cases "permitted pr")
  case True
  have "(procs w)(p \<mapsto> pr) = procs w" using assms(1) by (rule map_upd_triv)
  then show ?thesis using pk_sent [OF assms True, of Sig0] True by (simp add: deliver_Sig0)
next
  case False
  then show ?thesis using pk_denied [OF assms False, of Sig0] by simp
qed

lemma isAlive_running:
  assumes "procs w p = Some pr" "running w p"
  shows "isAlive w p = (True, w\<lparr>kills := kills w @ [(p, Sig0)]\<rparr>)"
  using pk_probe_running [OF assms] by (simp add: isAlive_def)

lemma isAlive_not_running:
  "isInt32 p \<Longrightarrow> \<not> running w p \<Longrightarrow>
   isAlive w p = (False, w\<lparr>kills := kills w @ [(p, Sig0)]\<rparr>)"
  by (simp add: isAlive_def pk_not_running)

lemma isAlive_invalid:
  "\<not> isInt32 p \<Longrightarrow> isAlive w p = (True, w\<lparr>kills := kills w @ [(p, Sig0)]\<rparr>)"
  by (simp add: isAlive_def pk_invalid)

text \<open>\<open>isAlive\<close> answers true for a running process and for a pid that is not a 32-bit
  integer; the probe is all that it leaves in the world.\<close>

lemma isAlive_iff: "fst (isAlive w p) = (running w p \<or> \<not> isInt32 p)"
proof (cases "isInt32 p")
  case False
  then show ?thesis by (simp add: isAlive_invalid)
next
  case i: True
  show ?thesis
  proof (cases "running w p")
    case True
    then obtain pr where "procs w p = Some pr" by (auto simp: running_def split: option.splits)
    with True show ?thesis by (simp add: isAlive_running)
  next
    case False
    then show ?thesis using i by (simp add: isAlive_not_running)
  qed
qed

lemma isAlive_snd: "snd (isAlive w p) = w\<lparr>kills := kills w @ [(p, Sig0)]\<rparr>"
proof (cases "isInt32 p")
  case False
  then show ?thesis by (simp add: isAlive_invalid)
next
  case i: True
  show ?thesis
  proof (cases "running w p")
    case True
    then obtain pr where "procs w p = Some pr" by (auto simp: running_def split: option.splits)
    with True show ?thesis by (simp add: isAlive_running)
  next
    case False
    then show ?thesis using i by (simp add: isAlive_not_running)
  qed
qed

lemma waitLoop_gone:
  "isInt32 p \<Longrightarrow> \<not> running w p \<Longrightarrow> now w - start < tmo \<Longrightarrow>
   waitLoop p start tmo w = (True, w\<lparr>kills := kills w @ [(p, Sig0)]\<rparr>)"
  by (subst waitLoop.simps) (simp add: pk_not_running)

text \<open>A process with no exit scheduled outlives the whole wait.\<close>

lemma waitLoop_stays:
  "procs w p = Some pr \<Longrightarrow> exitsAt pr = None \<Longrightarrow> isInt32 p \<Longrightarrow>
   \<exists>n. waitLoop p start tmo w =
         (False, w\<lparr>now := now w + 30 * int n, kills := kills w @ replicate n (p, Sig0)\<rparr>)
       \<and> start + tmo \<le> now w + 30 * int n"
proof (induction p start tmo w rule: waitLoop.induct)
  case (1 p start tmo w)
  show ?case
  proof (cases "now w - start < tmo")
    case False
    then have "waitLoop p start tmo w = (False, w)" by (subst waitLoop.simps) simp
    with False show ?thesis by (intro exI [of _ 0]) simp
  next
    case True
    have r: "running w p" using "1.prems" by (simp add: running_def)
    let ?w1 = "w\<lparr>kills := kills w @ [(p, Sig0)]\<rparr>"
    let ?c = "if permitted pr then None else Some EPERM"
    have pk: "process_kill w p Sig0 = (?c, ?w1)"
      using pk_probe_running [OF "1.prems"(1) r] .
    have step: "waitLoop p start tmo w = waitLoop p start tmo (sleep 30 ?w1)"
      by (subst waitLoop.simps) (simp add: True pk)
    have "\<exists>n. waitLoop p start tmo (sleep 30 ?w1) =
         (False, (sleep 30 ?w1)\<lparr>now := now (sleep 30 ?w1) + 30 * int n,
                                 kills := kills (sleep 30 ?w1) @ replicate n (p, Sig0)\<rparr>)
       \<and> start + tmo \<le> now (sleep 30 ?w1) + 30 * int n"
    proof (cases "permitted pr")
      case True
      then have e: "(None, ?w1) = process_kill w p Sig0" using pk by simp
      show ?thesis
        by (rule "1.IH"(1) [OF \<open>now w - start < tmo\<close> e refl])
           (use "1.prems" in \<open>auto simp: sleep_def\<close>)
    next
      case False
      then have e: "(Some EPERM, ?w1) = process_kill w p Sig0" using pk by simp
      show ?thesis
        by (rule "1.IH"(2) [OF \<open>now w - start < tmo\<close> e refl refl])
           (use "1.prems" in \<open>auto simp: sleep_def\<close>)
    qed
    then obtain n where n: "waitLoop p start tmo (sleep 30 ?w1) =
         (False, (sleep 30 ?w1)\<lparr>now := now (sleep 30 ?w1) + 30 * int n,
                                 kills := kills (sleep 30 ?w1) @ replicate n (p, Sig0)\<rparr>)"
       "start + tmo \<le> now (sleep 30 ?w1) + 30 * int n" by blast
    show ?thesis
      using n step by (intro exI [of _ "Suc n"]) (simp add: sleep_def replicate_app_Cons_same)
  qed
qed

text \<open>What a wait leaves in the world: its probes in the log, and the time it took.\<close>

lemma pk_probe_frame:
  "procs (snd (process_kill w p Sig0)) = procs w"
  by (auto simp: process_kill_def Let_def deliver_Sig0 map_upd_triv split: option.splits)

lemma waitLoop_log:
  "\<exists>n. kills (snd (waitLoop p start tmo w)) = kills w @ replicate n (p, Sig0)
       \<and> execs (snd (waitLoop p start tmo w)) = execs w
       \<and> procs (snd (waitLoop p start tmo w)) = procs w
       \<and> now w \<le> now (snd (waitLoop p start tmo w))"
proof (induction p start tmo w rule: waitLoop.induct)
  case (1 p start tmo w)
  show ?case
  proof (cases "now w - start < tmo")
    case False
    then have "waitLoop p start tmo w = (False, w)" by (subst waitLoop.simps) simp
    then show ?thesis by (intro exI [of _ 0]) simp
  next
    case True
    obtain x y where pk: "(x, y) = process_kill w p Sig0" by (metis surj_pair)
    have y: "y = snd (process_kill w p Sig0)" using pk by (metis snd_conv)
    have ky: "kills y = kills w @ [(p, Sig0)]" "execs y = execs w" "procs y = procs w"
      "now y = now w"
      by (simp_all add: y pk_frame pk_probe_frame)
    show ?thesis
    proof (cases "x = Some ESRCH")
      case e: True
      have "waitLoop p start tmo w = (True, y)"
        using True pk [symmetric] e by (subst waitLoop.simps) simp
      then show ?thesis using ky by (intro exI [of _ "Suc 0"]) simp
    next
      case ne: False
      have ih: "\<exists>n. kills (snd (waitLoop p start tmo (sleep 30 y))) =
                    kills (sleep 30 y) @ replicate n (p, Sig0)
                \<and> execs (snd (waitLoop p start tmo (sleep 30 y))) = execs (sleep 30 y)
                \<and> procs (snd (waitLoop p start tmo (sleep 30 y))) = procs (sleep 30 y)
                \<and> now (sleep 30 y) \<le> now (snd (waitLoop p start tmo (sleep 30 y)))"
      proof (cases x)
        case None
        from "1.IH"(1) [OF True pk None] show ?thesis .
      next
        case (Some e)
        show ?thesis
        proof (cases e)
          case ESRCH
          with Some ne show ?thesis by simp
        next
          case EPERM
          from "1.IH"(2) [OF True pk Some EPERM] show ?thesis .
        next
          case ERR_INVALID_ARG_TYPE
          from "1.IH"(3) [OF True pk Some ERR_INVALID_ARG_TYPE] show ?thesis .
        qed
      qed
      then obtain n where
        n: "kills (snd (waitLoop p start tmo (sleep 30 y))) = kills (sleep 30 y) @ replicate n (p, Sig0)"
           "execs (snd (waitLoop p start tmo (sleep 30 y))) = execs (sleep 30 y)"
           "procs (snd (waitLoop p start tmo (sleep 30 y))) = procs (sleep 30 y)"
           "now (sleep 30 y) \<le> now (snd (waitLoop p start tmo (sleep 30 y)))"
        by blast
      have "waitLoop p start tmo w = waitLoop p start tmo (sleep 30 y)"
        using True pk [symmetric] ne
        by (subst waitLoop.simps) (auto split: option.splits Errno.splits)
      then show ?thesis using n ky
        by (intro exI [of _ "Suc n"]) (simp add: sleep_def replicate_app_Cons_same)
    qed
  qed
qed

lemma waitForExit_log:
  "\<exists>n. kills (snd (waitForExit w p tmo)) = kills w @ replicate n (p, Sig0)
       \<and> execs (snd (waitForExit w p tmo)) = execs w
       \<and> procs (snd (waitForExit w p tmo)) = procs w
       \<and> now w \<le> now (snd (waitForExit w p tmo))"
  unfolding waitForExit_def by (rule waitLoop_log)

lemma waitForExit_gone:
  "isInt32 p \<Longrightarrow> \<not> running w p \<Longrightarrow> 0 < tmo \<Longrightarrow>
   waitForExit w p tmo = (True, w\<lparr>kills := kills w @ [(p, Sig0)]\<rparr>)"
  unfolding waitForExit_def by (rule waitLoop_gone) simp_all

lemma waitForExit_stays:
  assumes "procs w p = Some pr" "exitsAt pr = None" "isInt32 p"
  shows "\<exists>n. waitForExit w p tmo =
         (False, w\<lparr>now := now w + 30 * int n, kills := kills w @ replicate n (p, Sig0)\<rparr>)
       \<and> tmo \<le> 30 * int n"
  using waitLoop_stays [OF assms, of "now w" tmo] unfolding waitForExit_def by auto

lemma running_upd_kills [simp]: "running (w\<lparr>kills := k\<rparr>) p = running w p"
  by (simp add: running_def split: option.splits)

text \<open>The target exits as soon as SIGTERM arrives.\<close>

lemma killSingle_dies_on_term:
  assumes "procs w p = Some pr" "running w p" "permitted pr" "onTerm pr = Some 0" "0 < tmo"
  shows "\<exists>w'. killSingle w p tmo = (KillOk p ''SIGTERM'', w')
       \<and> kills w' = kills w @ [(p, SIGTERM), (p, Sig0)] \<and> now w' = now w \<and> execs w' = execs w"
proof -
  define pr' where "pr' = deliver SIGTERM (now w) pr"
  define w1 where "w1 = w\<lparr>kills := kills w @ [(p, SIGTERM)], procs := (procs w)(p \<mapsto> pr')\<rparr>"
  have s: "process_kill w p SIGTERM = (None, w1)"
    using pk_sent [OF assms(1-3), of SIGTERM] by (simp add: w1_def pr'_def)
  have "\<exists>e. exitsAt pr' = Some e \<and> e \<le> now w"
    using assms(4) by (auto simp: pr'_def deliver_def split: option.splits)
  then have g: "\<not> running w1 p" by (auto simp: running_def w1_def)
  have i: "isInt32 p" using assms(2) by (rule running_isInt32)
  have wt: "waitForExit w1 p tmo = (True, w1\<lparr>kills := kills w1 @ [(p, Sig0)]\<rparr>)"
    using waitForExit_gone [OF i g assms(5)] .
  have "killSingle w p tmo = (KillOk p ''SIGTERM'', w1\<lparr>kills := kills w1 @ [(p, Sig0)]\<rparr>)"
    using assms(5) by (simp add: killSingle_def s wt KillOk_def)
  then show ?thesis by (simp add: w1_def)
qed

text \<open>The target takes no notice of SIGTERM and would not exit on its own.\<close>

lemma killSingle_ignores_term:
  assumes "procs w p = Some pr" "permitted pr" "exitsAt pr = None" "onTerm pr = None"
    and "isInt32 p"
  shows "(onKill pr = Some 0 \<longrightarrow>
          (\<exists>w' n. killSingle w p tmo = (KillOk p ''SIGKILL'', w') \<and> tmo \<le> 30 * int n \<and>
             now w' = now w + 30 * int n \<and> execs w' = execs w \<and>
             kills w' = kills w @ (p, SIGTERM) # replicate n (p, Sig0) @ [(p, SIGKILL), (p, Sig0)]))
       \<and> (onKill pr = None \<longrightarrow>
          (\<exists>w' n m. killSingle w p tmo = (KillStillAlive p, w') \<and> tmo \<le> 30 * int n \<and>
             200 \<le> 30 * int m \<and> now w' = now w + 30 * int n + 30 * int m \<and> execs w' = execs w \<and>
             kills w' = kills w @ (p, SIGTERM) # replicate n (p, Sig0) @
                        (p, SIGKILL) # replicate m (p, Sig0)))"
proof -
  have r: "running w p" using assms(1,3,5) by (simp add: running_def)
  define w1 where "w1 = w\<lparr>kills := kills w @ [(p, SIGTERM)]\<rparr>"
  have d: "deliver SIGTERM (now w) pr = pr" using assms(4) by (simp add: deliver_def)
  have u: "(procs w)(p \<mapsto> pr) = procs w" using assms(1) by (rule map_upd_triv)
  have s1: "process_kill w p SIGTERM = (None, w1)"
    using pk_sent [OF assms(1) r assms(2), of SIGTERM] by (simp add: d u w1_def)
  have p1: "procs w1 p = Some pr" using assms(1) by (simp add: w1_def)
  obtain n where n: "(if 0 < tmo then waitForExit w1 p tmo else (False, w1)) =
       (False, w1\<lparr>now := now w1 + 30 * int n, kills := kills w1 @ replicate n (p, Sig0)\<rparr>)"
       "tmo \<le> 30 * int n"
  proof (cases "0 < tmo")
    case True
    from waitForExit_stays [OF p1 assms(3,5), of tmo] True that show ?thesis by auto
  next
    case False
    then show ?thesis using that [of 0] by simp
  qed
  define w2 where "w2 = w1\<lparr>now := now w1 + 30 * int n, kills := kills w1 @ replicate n (p, Sig0)\<rparr>"
  have p2: "procs w2 p = Some pr" using p1 by (simp add: w2_def)
  have r2: "running w2 p" using p2 assms(3,5) by (simp add: running_def)
  define w3 where "w3 = w2\<lparr>kills := kills w2 @ [(p, SIGKILL)],
                             procs := (procs w2)(p \<mapsto> deliver SIGKILL (now w2) pr)\<rparr>"
  have s2: "process_kill w2 p SIGKILL = (None, w3)"
    using pk_sent [OF p2 r2 assms(2), of SIGKILL] by (simp add: w3_def)
  have ks: "killSingle w p tmo =
      (let (confirmed, w4) = waitForExit w3 p 200 in
       if confirmed then (KillOk p ''SIGKILL'', w4) else (KillStillAlive p, w4))"
    using n(1) by (simp add: killSingle_def s1 s2 w2_def [symmetric] KillOk_def KillStillAlive_def
        split: prod.splits)
  show ?thesis
  proof (intro conjI impI)
    assume k: "onKill pr = Some 0"
    have "exitsAt (deliver SIGKILL (now w2) pr) = Some (now w2)"
      using k assms(3) by (simp add: deliver_def)
    then have g: "\<not> running w3 p" by (simp add: running_def w3_def)
    have wt: "waitForExit w3 p 200 = (True, w3\<lparr>kills := kills w3 @ [(p, Sig0)]\<rparr>)"
      by (rule waitForExit_gone [OF assms(5) g]) simp
    show "\<exists>w' n. killSingle w p tmo = (KillOk p ''SIGKILL'', w') \<and> tmo \<le> 30 * int n \<and>
             now w' = now w + 30 * int n \<and> execs w' = execs w \<and>
             kills w' = kills w @ (p, SIGTERM) # replicate n (p, Sig0) @ [(p, SIGKILL), (p, Sig0)]"
    proof (rule exI [of _ "w3\<lparr>kills := kills w3 @ [(p, Sig0)]\<rparr>"], rule exI [of _ n], intro conjI)
      show "killSingle w p tmo = (KillOk p ''SIGKILL'', w3\<lparr>kills := kills w3 @ [(p, Sig0)]\<rparr>)"
        by (simp add: ks wt)
    qed (use n(2) in \<open>simp_all add: w3_def w2_def w1_def\<close>)
  next
    assume k: "onKill pr = None"
    have "deliver SIGKILL (now w2) pr = pr" using k by (simp add: deliver_def)
    then have p3: "procs w3 p = Some pr" by (simp add: w3_def)
    from waitForExit_stays [OF p3 assms(3,5), of 200] obtain m where
      m: "waitForExit w3 p 200 =
           (False, w3\<lparr>now := now w3 + 30 * int m, kills := kills w3 @ replicate m (p, Sig0)\<rparr>)"
         "200 \<le> 30 * int m" by blast
    show "\<exists>w' n m. killSingle w p tmo = (KillStillAlive p, w') \<and> tmo \<le> 30 * int n \<and>
             200 \<le> 30 * int m \<and> now w' = now w + 30 * int n + 30 * int m \<and> execs w' = execs w \<and>
             kills w' = kills w @ (p, SIGTERM) # replicate n (p, Sig0) @
                        (p, SIGKILL) # replicate m (p, Sig0)"
    proof (rule exI [of _ "w3\<lparr>now := now w3 + 30 * int m, kills := kills w3 @ replicate m (p, Sig0)\<rparr>"],
        rule exI [of _ n], rule exI [of _ m], intro conjI)
      show "killSingle w p tmo = (KillStillAlive p,
              w3\<lparr>now := now w3 + 30 * int m, kills := kills w3 @ replicate m (p, Sig0)\<rparr>)"
        by (simp add: ks m(1))
    qed (use n(2) m(2) in \<open>simp_all add: w3_def w2_def w1_def\<close>)
  qed
qed

lemma deliver_permitted [simp]: "permitted (deliver sig t pr) = permitted pr"
  by (simp add: deliver_def split: option.splits Signal.splits)

lemma killSingle_denied:
  assumes "procs w p = Some pr" "running w p" "\<not> permitted pr"
  shows "killSingle w p tmo =
     (\<lparr>pid_r = p, ok = False, method_r = ascii ''SIGTERM'', message = Some (ascii ''kill EPERM''),
       errorCode = Some (ascii ''EPERM'')\<rparr>, w\<lparr>kills := kills w @ [(p, SIGTERM)]\<rparr>)"
  using pk_denied [OF assms, of SIGTERM]
  by (simp add: killSingle_def errnoMessage_def errnoName_def ascii_def)

text \<open>With no grace window, SIGKILL follows SIGTERM at once.\<close>

lemma killSingle_zero_grace:
  assumes "procs w p = Some pr" "running w p" "permitted pr" "tmo \<le> 0"
  shows "\<exists>r w' n. killSingle w p tmo = (r, w')
       \<and> kills w' = kills w @ [(p, SIGTERM), (p, SIGKILL)] @ replicate n (p, Sig0)
       \<and> execs w' = execs w
       \<and> (if running (snd (process_kill w p SIGTERM)) p
           then r = KillOk p ''SIGKILL'' \<or> r = KillStillAlive p
           else r = KillOk p ''SIGTERM'' \<and> now w' = now w)"
proof -
  define pr' where "pr' = deliver SIGTERM (now w) pr"
  define w1 where "w1 = w\<lparr>kills := kills w @ [(p, SIGTERM)], procs := (procs w)(p \<mapsto> pr')\<rparr>"
  have s1: "process_kill w p SIGTERM = (None, w1)"
    using pk_sent [OF assms(1-3), of SIGTERM] by (simp add: w1_def pr'_def)
  have p1: "procs w1 p = Some pr'" by (simp add: w1_def)
  show ?thesis
  proof (cases "running w1 p")
    case False
    have s2: "process_kill w1 p SIGKILL = (Some ESRCH, w1\<lparr>kills := kills w1 @ [(p, SIGKILL)]\<rparr>)"
      using running_isInt32 [OF assms(2)] False by (rule pk_not_running)
    have "killSingle w p tmo = (KillOk p ''SIGTERM'', w1\<lparr>kills := kills w1 @ [(p, SIGKILL)]\<rparr>)"
      using assms(4) by (simp add: killSingle_def s1 s2 KillOk_def)
    then show ?thesis
      using False s1
      by (intro exI [of _ "KillOk p ''SIGTERM''"] exI [of _ "w1\<lparr>kills := kills w1 @ [(p, SIGKILL)]\<rparr>"]
            exI [of _ 0]) (simp add: w1_def)
  next
    case True
    define w3 where "w3 = w1\<lparr>kills := kills w1 @ [(p, SIGKILL)],
                               procs := (procs w1)(p \<mapsto> deliver SIGKILL (now w1) pr')\<rparr>"
    have s2: "process_kill w1 p SIGKILL = (None, w3)"
      using pk_sent [OF p1 True, of SIGKILL] assms(3) by (simp add: w3_def pr'_def)
    obtain c w4 where wt: "waitForExit w3 p 200 = (c, w4)" by (metis surj_pair)
    from waitForExit_log [of w3 p 200] obtain n where
      n: "kills w4 = kills w3 @ replicate n (p, Sig0)" and e3: "execs w4 = execs w3" using wt by auto
    have ks: "killSingle w p tmo = (if c then KillOk p ''SIGKILL'' else KillStillAlive p, w4)"
      using assms(4) by (simp add: killSingle_def s1 s2 wt KillOk_def KillStillAlive_def)
    have e: "execs w4 = execs w" using e3 by (simp add: w3_def w1_def)
    show ?thesis
      using True s1 n e
      by (intro exI [of _ "if c then KillOk p ''SIGKILL'' else KillStillAlive p"] exI [of _ w4]
            exI [of _ n]) (simp add: ks w3_def w1_def)
  qed
qed

lemma kill_single:
  assumes "fst (isAlive w p)" "tree options \<noteq> Some True"
  shows "kill w p options =
     Some (killSingle (w\<lparr>kills := kills w @ [(p, Sig0)]\<rparr>) p
             (max 0 (case timeoutMs options of None \<Rightarrow> 0 | Some t \<Rightarrow> t)))"
proof -
  have "isAlive w p = (True, w\<lparr>kills := kills w @ [(p, Sig0)]\<rparr>)"
    using assms(1) isAlive_snd [of w p] by (cases "isAlive w p") simp
  then show ?thesis using assms(2) by (simp add: kill_def Let_def)
qed

text \<open>
  Claim C1 (kill state machine). For a positive pid of a running process that the caller
  may signal, a grace window \<open>t > 0\<close> and no tree mode, \<open>kill\<close> returns, and
  \<^item> if the process exits as soon as SIGTERM arrives, the result is \<open>ok\<close> with method
    \<open>SIGTERM\<close>, no time has passed (so the call is within the grace window), and the
    calls of \<open>process.kill\<close> were the probe of \<open>isAlive\<close>, SIGTERM and one probe of
    the wait: SIGKILL was never sent;
  \<^item> if the process takes no notice of SIGTERM and exits when SIGKILL arrives, the
    result is \<open>ok\<close> with method \<open>SIGKILL\<close>, sent after the whole grace window was
    waited for;
  \<^item> if neither signal ends the process, the result is not \<open>ok\<close>, with method
    \<open>SIGKILL\<close> and the message \<open>process still alive\<close>, after the grace window and the
    200 ms of the confirmation wait.
\<close>

theorem kill_state_machine:
  assumes "0 < p" "procs w p = Some pr" "running w p" "permitted pr"
    and "timeoutMs options = Some t" "0 < t" "tree options \<noteq> Some True"
  shows "(onTerm pr = Some 0 \<longrightarrow>
          (\<exists>w'. kill w p options =
                  Some (\<lparr>pid_r = p, ok = True, method_r = ascii ''SIGTERM'', message = None,
                         errorCode = None\<rparr>, w')
                \<and> now w' = now w
                \<and> kills w' = kills w @ [(p, Sig0), (p, SIGTERM), (p, Sig0)]))
       \<and> (onTerm pr = None \<and> exitsAt pr = None \<and> onKill pr = Some 0 \<longrightarrow>
          (\<exists>w' n. kill w p options =
                  Some (\<lparr>pid_r = p, ok = True, method_r = ascii ''SIGKILL'', message = None,
                         errorCode = None\<rparr>, w')
                \<and> now w + t \<le> now w'
                \<and> kills w' = kills w @ (p, Sig0) # (p, SIGTERM) # replicate n (p, Sig0) @
                                       [(p, SIGKILL), (p, Sig0)]))
       \<and> (onTerm pr = None \<and> exitsAt pr = None \<and> onKill pr = None \<longrightarrow>
          (\<exists>w' n m. kill w p options =
                  Some (\<lparr>pid_r = p, ok = False, method_r = ascii ''SIGKILL'',
                         message = Some (ascii ''process still alive''), errorCode = None\<rparr>, w')
                \<and> now w + t + 200 \<le> now w'
                \<and> kills w' = kills w @ (p, Sig0) # (p, SIGTERM) # replicate n (p, Sig0) @
                                       (p, SIGKILL) # replicate m (p, Sig0)))"
proof -
  define w0 where "w0 = w\<lparr>kills := kills w @ [(p, Sig0)]\<rparr>"
  have i: "isInt32 p" using assms(3) by (rule running_isInt32)
  have al: "fst (isAlive w p)" using assms(3) by (simp add: isAlive_iff)
  have k: "kill w p options = Some (killSingle w0 p t)"
    using kill_single [OF al assms(7)] assms(5,6) by (simp add: w0_def)
  have p0: "procs w0 p = Some pr" and r0: "running w0 p"
    using assms(2,3) by (simp_all add: w0_def)
  show ?thesis
  proof (intro conjI impI)
    assume "onTerm pr = Some 0"
    from killSingle_dies_on_term [OF p0 r0 assms(4) this assms(6)]
    show "\<exists>w'. kill w p options =
                  Some (\<lparr>pid_r = p, ok = True, method_r = ascii ''SIGTERM'', message = None,
                         errorCode = None\<rparr>, w')
                \<and> now w' = now w
                \<and> kills w' = kills w @ [(p, Sig0), (p, SIGTERM), (p, Sig0)]"
      by (auto simp: k KillOk_def w0_def)
  next
    assume a: "onTerm pr = None \<and> exitsAt pr = None \<and> onKill pr = Some 0"
    from killSingle_ignores_term [OF p0 assms(4) _ _ i, of t] a
    obtain w' n where "killSingle w0 p t = (KillOk p ''SIGKILL'', w')" "t \<le> 30 * int n"
      "now w' = now w0 + 30 * int n"
      "kills w' = kills w0 @ (p, SIGTERM) # replicate n (p, Sig0) @ [(p, SIGKILL), (p, Sig0)]"
      by auto
    then show "\<exists>w' n. kill w p options =
                  Some (\<lparr>pid_r = p, ok = True, method_r = ascii ''SIGKILL'', message = None,
                         errorCode = None\<rparr>, w')
                \<and> now w + t \<le> now w'
                \<and> kills w' = kills w @ (p, Sig0) # (p, SIGTERM) # replicate n (p, Sig0) @
                                       [(p, SIGKILL), (p, Sig0)]"
      by (intro exI [of _ w'] exI [of _ n]) (simp add: k KillOk_def w0_def)
  next
    assume a: "onTerm pr = None \<and> exitsAt pr = None \<and> onKill pr = None"
    from killSingle_ignores_term [OF p0 assms(4) _ _ i, of t] a
    obtain w' n m where "killSingle w0 p t = (KillStillAlive p, w')" "t \<le> 30 * int n"
      "200 \<le> 30 * int m" "now w' = now w0 + 30 * int n + 30 * int m"
      "kills w' = kills w0 @ (p, SIGTERM) # replicate n (p, Sig0) @
                        (p, SIGKILL) # replicate m (p, Sig0)"
      by auto
    then have "kill w p options =
                  Some (\<lparr>pid_r = p, ok = False, method_r = ascii ''SIGKILL'',
                         message = Some (ascii ''process still alive''), errorCode = None\<rparr>, w')
                \<and> now w + t + 200 \<le> now w'
                \<and> kills w' = kills w @ (p, Sig0) # (p, SIGTERM) # replicate n (p, Sig0) @
                                       (p, SIGKILL) # replicate m (p, Sig0)"
      by (simp add: k KillStillAlive_def w0_def)
    then show "\<exists>w' n m. kill w p options =
                  Some (\<lparr>pid_r = p, ok = False, method_r = ascii ''SIGKILL'',
                         message = Some (ascii ''process still alive''), errorCode = None\<rparr>, w')
                \<and> now w + t + 200 \<le> now w'
                \<and> kills w' = kills w @ (p, Sig0) # (p, SIGTERM) # replicate n (p, Sig0) @
                                       (p, SIGKILL) # replicate m (p, Sig0)"
      by blast
  qed
qed

lemmas world_eval = sampleWorld_def quickProc_def stubbornProc_def immuneProc_def graceOptions_def
  running_def isInt32_def isAlive_def process_kill_def deliver_def Let_def

theorem kill_state_machine_witness:
  "fst (the (kill sampleWorld 4242 (graceOptions 1200))) =
     \<lparr>pid_r = 4242, ok = True, method_r = ascii ''SIGTERM'', message = None, errorCode = None\<rparr>
   \<and> fst (the (kill sampleWorld 4243 (graceOptions 1200))) =
     \<lparr>pid_r = 4243, ok = True, method_r = ascii ''SIGKILL'', message = None, errorCode = None\<rparr>
   \<and> fst (the (kill sampleWorld 4244 (graceOptions 1200))) =
     \<lparr>pid_r = 4244, ok = False, method_r = ascii ''SIGKILL'',
      message = Some (ascii ''process still alive''), errorCode = None\<rparr>"
proof -
  have a: "procs sampleWorld 4242 = Some quickProc" "procs sampleWorld 4243 = Some stubbornProc"
    "procs sampleWorld 4244 = Some immuneProc"
    "running sampleWorld 4242" "running sampleWorld 4243" "running sampleWorld 4244"
    by (simp_all add: world_eval)
  have o: "timeoutMs (graceOptions 1200) = Some 1200" "tree (graceOptions 1200) \<noteq> Some True"
    by (simp_all add: graceOptions_def)
  show ?thesis
    using kill_state_machine [OF _ a(1) a(4) _ o(1) _ o(2)]
      kill_state_machine [OF _ a(2) a(5) _ o(1) _ o(2)]
      kill_state_machine [OF _ a(3) a(6) _ o(1) _ o(2)]
    by (auto simp: quickProc_def stubbornProc_def immuneProc_def)
qed

text \<open>
  Claim C7 (already-exited short-circuit). When \<open>isAlive\<close> returns false for the pid,
  \<open>kill\<close> of the POSIX killer and of the Windows killer both return \<open>ok\<close> with method
  \<open>already-exited\<close>, whatever the options, and leave the world as it was but for the
  probe of \<open>isAlive\<close> itself (signal 0) in the log of \<open>process.kill\<close>: no SIGTERM and no
  SIGKILL was sent, no command was run, and no time has passed.
\<close>

theorem already_exited_short_circuit:
  assumes "fst (isAlive w p) = False"
  shows "kill w p options =
           Some (\<lparr>pid_r = p, ok = True, method_r = ascii ''already-exited'', message = None,
                  errorCode = None\<rparr>, w\<lparr>kills := kills w @ [(p, Sig0)]\<rparr>)
       \<and> WindowsKiller_kill w p options' =
           Some (\<lparr>pid_r = p, ok = True, method_r = ascii ''already-exited'', message = None,
                  errorCode = None\<rparr>, w\<lparr>kills := kills w @ [(p, Sig0)]\<rparr>)"
proof -
  have "isAlive w p = (False, w\<lparr>kills := kills w @ [(p, Sig0)]\<rparr>)"
    using assms isAlive_snd [of w p] by (cases "isAlive w p") simp
  then show ?thesis by (simp add: kill_def WindowsKiller_kill_def)
qed

theorem already_exited_short_circuit_witness:
  "kill sampleWorld 999 (graceOptions 1200) =
     Some (\<lparr>pid_r = 999, ok = True, method_r = ascii ''already-exited'', message = None,
            errorCode = None\<rparr>, sampleWorld\<lparr>kills := kills sampleWorld @ [(999, Sig0)]\<rparr>)
   \<and> WindowsKiller_kill sampleWorld 999 (graceOptions 1200) =
     Some (\<lparr>pid_r = 999, ok = True, method_r = ascii ''already-exited'', message = None,
            errorCode = None\<rparr>, sampleWorld\<lparr>kills := kills sampleWorld @ [(999, Sig0)]\<rparr>)"
proof -
  have "fst (isAlive sampleWorld 999) = False" by (simp add: world_eval)
  then show ?thesis by (rule already_exited_short_circuit)
qed

lemma sig_names:
  "ascii ''SIGKILL'' \<noteq> ascii ''SIGTERM''"
  "ascii ''SIGTERM'' \<noteq> ascii ''already-exited''"
  "ascii ''SIGKILL'' \<noteq> ascii ''already-exited''"
  by (simp_all add: ascii_def)

lemma pk_sent_iff:
  "(fst (process_kill w p sig) = None) =
   (\<exists>pr. procs w p = Some pr \<and> running w p \<and> permitted pr)"
  by (auto simp: process_kill_def Let_def running_def split: option.splits)

lemma killSingle_zero_grace_sent:
  assumes "fst (process_kill w1 p SIGTERM) = None" "tmo \<le> 0"
  shows "\<exists>r w' n. killSingle w1 p tmo = (r, w')
       \<and> kills w' = kills w1 @ [(p, SIGTERM), (p, SIGKILL)] @ replicate n (p, Sig0)
       \<and> execs w' = execs w1
       \<and> (method_r r = ascii ''SIGKILL'' \<or> method_r r = ascii ''SIGTERM'')
       \<and> (method_r r = ascii ''SIGTERM'') = (\<not> running (snd (process_kill w1 p SIGTERM)) p)
       \<and> (method_r r = ascii ''SIGTERM'' \<longrightarrow> ok r)"
proof -
  from assms(1) obtain pr where pr: "procs w1 p = Some pr" "running w1 p" "permitted pr"
    by (auto simp: pk_sent_iff)
  from killSingle_zero_grace [OF pr assms(2)]
  obtain r w' n where z: "killSingle w1 p tmo = (r, w')"
    "kills w' = kills w1 @ [(p, SIGTERM), (p, SIGKILL)] @ replicate n (p, Sig0)"
    "execs w' = execs w1"
    "if running (snd (process_kill w1 p SIGTERM)) p
     then r = KillOk p ''SIGKILL'' \<or> r = KillStillAlive p
     else r = KillOk p ''SIGTERM'' \<and> now w' = now w1"
    by auto
  have m: "(method_r r = ascii ''SIGTERM'') = (\<not> running (snd (process_kill w1 p SIGTERM)) p)"
    "method_r r = ascii ''SIGTERM'' \<longrightarrow> ok r"
    "method_r r = ascii ''SIGKILL'' \<or> method_r r = ascii ''SIGTERM''"
    using z(4) sig_names(1) by (auto simp: KillOk_def KillStillAlive_def split: if_splits)
  show ?thesis using z(1,2,3) m by blast
qed

text \<open>When the send of SIGTERM fails, \<open>killSingle\<close> returns at once: with success when the
  process is no more, with the error otherwise.\<close>

lemma killSingle_not_sent:
  assumes "fst (process_kill w1 p SIGTERM) = Some e"
  shows "killSingle w1 p tmo =
     (if e = ESRCH then
        \<lparr>pid_r = p, ok = True, method_r = ascii ''already-exited'', message = None,
          errorCode = None\<rparr>
      else
        \<lparr>pid_r = p, ok = False, method_r = ascii ''SIGTERM'',
          message = Some (errnoMessage e p), errorCode = Some (errnoName e)\<rparr>,
      w1\<lparr>kills := kills w1 @ [(p, SIGTERM)]\<rparr>)"
proof -
  have "process_kill w1 p SIGTERM = (Some e, w1\<lparr>kills := kills w1 @ [(p, SIGTERM)]\<rparr>)"
    using assms by (auto simp: process_kill_def Let_def split: option.splits if_splits)
  then show ?thesis by (simp add: killSingle_def)
qed

lemma killSingle_methods:
  "ok (fst (killSingle w1 p tmo)) \<longrightarrow>
     method_r (fst (killSingle w1 p tmo)) = ascii ''SIGKILL''
     \<or> method_r (fst (killSingle w1 p tmo)) = ascii ''SIGTERM''
     \<or> method_r (fst (killSingle w1 p tmo)) = ascii ''already-exited''"
  by (auto simp: killSingle_def Let_def split: prod.splits option.splits if_splits)

lemma kill_zero_grace:
  assumes "fst (isAlive w p)"
    and "timeoutMs options = None \<or> (\<exists>t. timeoutMs options = Some t \<and> t \<le> 0)"
    and "tree options \<noteq> Some True"
  shows "\<exists>r w'. kill w p options = Some (r, w')
       \<and> killSingle (snd (isAlive w p)) p 0 = (r, w')
       \<and> execs w' = execs w
       \<and> (fst (process_kill (snd (isAlive w p)) p SIGTERM) = None \<longrightarrow>
            (\<exists>n. kills w' = kills w @ [(p, Sig0), (p, SIGTERM), (p, SIGKILL)] @ replicate n (p, Sig0))
            \<and> (method_r r = ascii ''SIGTERM'') =
                (\<not> running (snd (process_kill (snd (isAlive w p)) p SIGTERM)) p)
            \<and> (method_r r = ascii ''SIGTERM'' \<longrightarrow> ok r)
            \<and> (method_r r = ascii ''SIGKILL'' \<or> method_r r = ascii ''SIGTERM''))
       \<and> (fst (process_kill (snd (isAlive w p)) p SIGTERM) \<noteq> None \<longrightarrow>
            kills w' = kills w @ [(p, Sig0), (p, SIGTERM)])"
proof -
  define w0 where "w0 = w\<lparr>kills := kills w @ [(p, Sig0)]\<rparr>"
  have a: "snd (isAlive w p) = w0" by (simp add: isAlive_snd w0_def)
  have tm: "max 0 (case timeoutMs options of None \<Rightarrow> 0 | Some t \<Rightarrow> t) = 0"
    using assms(2) by auto
  have k: "kill w p options = Some (killSingle w0 p 0)"
    using kill_single [OF assms(1,3)] by (simp add: tm w0_def)
  show ?thesis
  proof (cases "fst (process_kill w0 p SIGTERM)")
    case (Some e)
    obtain r' w' where ks: "killSingle w0 p 0 = (r', w')" by (cases "killSingle w0 p 0")
    have "w' = w0\<lparr>kills := kills w0 @ [(p, SIGTERM)]\<rparr>"
      using killSingle_not_sent [OF Some, of 0] ks by simp
    then have l: "kills w' = kills w @ [(p, Sig0), (p, SIGTERM)]" "execs w' = execs w"
      by (simp_all add: w0_def)
    show ?thesis
      using l Some by (simp add: k a ks)
  next
    case None
    from killSingle_zero_grace_sent [OF None, of 0]
    obtain r' w' n where z: "killSingle w0 p 0 = (r', w')"
      "kills w' = kills w0 @ [(p, SIGTERM), (p, SIGKILL)] @ replicate n (p, Sig0)"
      "execs w' = execs w0"
      "method_r r' = ascii ''SIGKILL'' \<or> method_r r' = ascii ''SIGTERM''"
      "(method_r r' = ascii ''SIGTERM'') = (\<not> running (snd (process_kill w0 p SIGTERM)) p)"
      "method_r r' = ascii ''SIGTERM'' \<longrightarrow> ok r'"
      by auto
    have l: "kills w' = kills w @ [(p, Sig0), (p, SIGTERM), (p, SIGKILL)] @ replicate n (p, Sig0)"
      using z(2) by (simp add: w0_def)
    have e: "execs w' = execs w" using z(3) by (simp add: w0_def)
    show ?thesis
      using z(4,5,6) l e None by (intro exI [of _ r'] exI [of _ w']) (auto simp: k a z(1))
  qed
qed

text \<open>In tree mode the descendants are listed and killed first. None of that names the
  pid itself, changes its entry in the process table or turns the clock back.\<close>

lemma leavesAlone_refl: "leavesAlone p w w"
  by (simp add: leavesAlone_def)

lemma leavesAlone_trans:
  assumes "leavesAlone p w w1" "leavesAlone p w1 w2"
  shows "leavesAlone p w w2"
proof -
  from assms(1) obtain ks1 where 1: "kills w1 = kills w @ ks1" "\<forall>k \<in> set ks1. fst k \<noteq> p"
    "procs w1 p = procs w p" "now w \<le> now w1"
    by (auto simp: leavesAlone_def)
  from assms(2) obtain ks2 where 2: "kills w2 = kills w1 @ ks2" "\<forall>k \<in> set ks2. fst k \<noteq> p"
    "procs w2 p = procs w1 p" "now w1 \<le> now w2"
    by (auto simp: leavesAlone_def)
  have "kills w2 = kills w @ (ks1 @ ks2) \<and> (\<forall>k \<in> set (ks1 @ ks2). fst k \<noteq> p)"
    using 1 2 by auto
  then have "\<exists>ks. kills w2 = kills w @ ks \<and> (\<forall>k \<in> set ks. fst k \<noteq> p)" by blast
  then show ?thesis using 1 2 by (simp add: leavesAlone_def)
qed

lemma pk_leavesAlone: "q \<noteq> p \<Longrightarrow> leavesAlone p w (snd (process_kill w q sig))"
  by (simp add: leavesAlone_def pk_frame)

lemma waitForExit_leavesAlone: "q \<noteq> p \<Longrightarrow> leavesAlone p w (snd (waitForExit w q tmo))"
  using waitForExit_log [of w q tmo] by (auto simp: leavesAlone_def)

lemma killSingle_leavesAlone:
  assumes "q \<noteq> p"
  shows "leavesAlone p w (snd (killSingle w q tmo))"
proof -
  define w1 where "w1 = snd (process_kill w q SIGTERM)"
  define w2 where "w2 = (if tmo > 0 then snd (waitForExit w1 q tmo) else w1)"
  define w3 where "w3 = snd (process_kill w2 q SIGKILL)"
  define w4 where "w4 = snd (waitForExit w3 q 200)"
  have c: "snd (killSingle w q tmo) = w1 \<or> snd (killSingle w q tmo) = w2
         \<or> snd (killSingle w q tmo) = w3 \<or> snd (killSingle w q tmo) = w4"
    by (auto simp: killSingle_def Let_def w1_def w2_def w3_def w4_def
        split: prod.splits option.splits if_splits)
  have l1: "leavesAlone p w w1" unfolding w1_def using assms by (rule pk_leavesAlone)
  have "leavesAlone p w1 w2"
    unfolding w2_def using assms by (simp add: waitForExit_leavesAlone leavesAlone_refl)
  with l1 have l2: "leavesAlone p w w2" by (rule leavesAlone_trans)
  have "leavesAlone p w2 w3" unfolding w3_def using assms by (rule pk_leavesAlone)
  with l2 have l3: "leavesAlone p w w3" by (rule leavesAlone_trans)
  have "leavesAlone p w3 w4" unfolding w4_def using assms by (rule waitForExit_leavesAlone)
  with l3 have l4: "leavesAlone p w w4" by (rule leavesAlone_trans)
  show ?thesis using c l1 l2 l3 l4 by auto
qed

lemma killChildren_leavesAlone:
  assumes "p \<notin> set children"
  shows "leavesAlone p w (killChildren w children tmo)"
proof -
  have "\<forall>c \<in> set cs. c \<noteq> p \<Longrightarrow>
        leavesAlone p w (foldl (\<lambda>w' c. snd (killSingle w' c tmo)) w cs)" for cs
  proof (induction cs arbitrary: w)
    case Nil
    then show ?case by (simp add: leavesAlone_refl)
  next
    case (Cons c cs)
    have "leavesAlone p w (snd (killSingle w c tmo))"
      using Cons.prems by (simp add: killSingle_leavesAlone)
    moreover have "leavesAlone p (snd (killSingle w c tmo))
        (foldl (\<lambda>w' c. snd (killSingle w' c tmo)) (snd (killSingle w c tmo)) cs)"
      using Cons.prems by (intro Cons.IH) simp
    ultimately show ?case by (simp add: leavesAlone_trans)
  qed
  from this [of "rev children"] show ?thesis
    using assms by (auto simp: killChildren_def)
qed

lemma execFile_leavesAlone:
  "execFile w c as t = Some (r, w1) \<Longrightarrow> leavesAlone p w w1"
  by (auto simp: execFile_def Let_def sleep_def leavesAlone_def
      split: Behaviour.splits if_splits option.splits)

lemma listChildren_leavesAlone:
  "listChildren w q = Some (r, w1) \<Longrightarrow> leavesAlone p w w1"
  by (auto simp: listChildren_def split: option.splits prod.splits sum.splits
      dest: execFile_leavesAlone)

lemma descendantsStep_leavesAlone:
  "descendantsStep (w, seen, out, q) = Inl (Some (r, w1)) \<Longrightarrow> leavesAlone p w w1"
  "descendantsStep (w, seen, out, q) = Inr (w1, seen', out', q') \<Longrightarrow> leavesAlone p w w1"
  by (auto simp: descendantsStep_def Let_def leavesAlone_refl
      split: list.splits if_splits option.splits prod.splits sum.splits
      dest: listChildren_leavesAlone)

lemma descendantsLoop_leavesAlone:
  assumes "descendantsLoop st = Some res"
  shows "leavesAlone p (fst st) (snd res)"
  using assms
proof (rule descendantsLoop.raw_induct [rotated])
  fix loop st res
  assume ih: "\<And>x y. loop x = Some y \<Longrightarrow> leavesAlone p (fst x) (snd y)"
    and eq: "(case descendantsStep st of Inl r \<Rightarrow> r | Inr st' \<Rightarrow> loop st') = Some res"
  obtain w seen out q where st: "st = (w, seen, out, q)" by (cases st)
  obtain x w1 where res: "res = (x, w1)" by (cases res)
  show "leavesAlone p (fst st) (snd res)"
  proof (cases "descendantsStep st")
    case (Inl r)
    with eq have "descendantsStep (w, seen, out, q) = Inl (Some (x, w1))"
      by (simp add: st res)
    then show ?thesis by (simp add: st res descendantsStep_leavesAlone(1))
  next
    case (Inr st')
    obtain w' seen' out' q' where st': "st' = (w', seen', out', q')" by (cases st')
    from Inr eq have "loop st' = Some res" by simp
    then have "leavesAlone p (fst st') (snd res)" by (rule ih)
    moreover have "leavesAlone p w w'"
      using Inr by (simp add: st st' descendantsStep_leavesAlone(2))
    ultimately show ?thesis by (simp add: st st' leavesAlone_trans)
  qed
qed

lemma listDescendants_leavesAlone:
  assumes "listDescendants w p = Some (r, w1)"
  shows "leavesAlone q w w1" and "r = Inr children \<Longrightarrow> p \<notin> set children"
proof -
  from assms obtain r0 where l: "descendantsLoop (w, {}, [], [p]) = Some (r0, w1)"
    and r: "r = (case r0 of Inl err \<Rightarrow> Inl err | Inr out \<Rightarrow> Inr (filter (\<lambda>x. x \<noteq> p) out))"
    by (auto simp: listDescendants_def split: option.splits prod.splits sum.splits)
  from descendantsLoop_leavesAlone [OF l, of q] show "leavesAlone q w w1" by simp
  show "r = Inr children \<Longrightarrow> p \<notin> set children"
    using r by (auto split: sum.splits)
qed

text \<open>\<open>kill\<close>, in either mode, ends with \<open>killSingle\<close> on the pid, unless the listing of
  the descendants never ends.\<close>

lemma kill_world:
  assumes "fst (isAlive w p)"
  shows "kill w p options = None \<and> tree options = Some True
       \<or> (\<exists>w1. kill w p options =
              Some (killSingle w1 p (max 0 (case timeoutMs options of None \<Rightarrow> 0 | Some t \<Rightarrow> t)))
            \<and> leavesAlone p (snd (isAlive w p)) w1)"
proof -
  define w0 where "w0 = snd (isAlive w p)"
  define tmo where "tmo = max 0 (case timeoutMs options of None \<Rightarrow> 0 | Some t \<Rightarrow> t)"
  have a: "isAlive w p = (True, w0)" using assms by (cases "isAlive w p") (simp add: w0_def)
  show ?thesis
  proof (cases "tree options = Some True")
    case False
    then have "kill w p options = Some (killSingle w0 p tmo)"
      by (simp add: kill_def a Let_def tmo_def)
    then show ?thesis
      using leavesAlone_refl [of p w0] by (auto simp: w0_def tmo_def)
  next
    case True
    show ?thesis
    proof (cases "listDescendants w0 p")
      case None
      then have "kill w p options = None" using True by (simp add: kill_def a Let_def)
      then show ?thesis using True by simp
    next
      case (Some res)
      obtain r w1 where res: "res = (r, w1)" by (cases res)
      have l: "leavesAlone p w0 w1"
        using listDescendants_leavesAlone(1) [of w0 p r w1 p] Some res by simp
      show ?thesis
      proof (cases r)
        case (Inl err)
        then have "kill w p options = Some (killSingle w1 p tmo)"
          using True Some res by (simp add: kill_def a Let_def tmo_def)
        then show ?thesis using l by (auto simp: w0_def tmo_def)
      next
        case (Inr children)
        then have k: "kill w p options = Some (killSingle (killChildren w1 children tmo) p tmo)"
          using True Some res by (simp add: kill_def a Let_def tmo_def)
        have "p \<notin> set children"
          using listDescendants_leavesAlone(2) [of w0 p r w1 children] Some res Inr by simp
        then have "leavesAlone p w1 (killChildren w1 children tmo)"
          by (rule killChildren_leavesAlone)
        with l have "leavesAlone p w0 (killChildren w1 children tmo)"
          by (rule leavesAlone_trans)
        then show ?thesis using k by (auto simp: w0_def tmo_def)
      qed
    qed
  qed
qed

text \<open>
  Claim C10 (zero-grace escalation). For a pid that \<open>isAlive\<close> reports alive and options
  whose \<open>timeoutMs\<close> is missing, zero or negative, \<open>kill\<close> either does not return, which
  only tree mode allows (the listing of the descendants may go on for ever), or returns
  what \<open>killSingle\<close> returns for a grace window of 0, a negative value being clamped,
  from a world in which, since the probe of \<open>isAlive\<close>, no call of \<open>process.kill\<close> has
  named the pid and its entry in the process table is as it was: only time may have
  passed. From any world \<open>v\<close>, \<open>killSingle\<close> with that window
  \<^item> when the send of SIGTERM succeeds, sends SIGKILL next, with no poll between the
    two, and only the probes of the confirmation wait after it; the method reported
    is \<open>SIGKILL\<close> or \<open>SIGTERM\<close>, and it is \<open>SIGTERM\<close>, with \<open>ok\<close>, exactly when the process
    was gone by the time SIGKILL was sent;
  \<^item> when the send of SIGTERM fails with \<open>ESRCH\<close>, which is when the process is no
    longer running, returns \<open>ok\<close> with the method \<open>already-exited\<close> and sends nothing
    more; when it fails with another error, returns that error, not \<open>ok\<close>, with the
    method \<open>SIGTERM\<close>.
  So a result that is \<open>ok\<close> has the method \<open>SIGKILL\<close>, \<open>SIGTERM\<close> or \<open>already-exited\<close>.
  With tree mode off \<open>kill\<close> returns what \<open>killSingle\<close> returns from the world that the
  probe of \<open>isAlive\<close> left, and runs no command: when the send of SIGTERM succeeds,
  the calls of \<open>process.kill\<close> are the probe, SIGTERM, SIGKILL and the probes of the
  confirmation wait; when it fails, they are the probe and SIGTERM.
\<close>

theorem zero_grace_escalation:
  assumes "fst (isAlive w p)"
    and "timeoutMs options = None \<or> (\<exists>t. timeoutMs options = Some t \<and> t \<le> 0)"
  shows "(kill w p options = None \<and> tree options = Some True
          \<or> (\<exists>w1 ks. kill w p options = Some (killSingle w1 p 0)
                \<and> kills w1 = kills w @ (p, Sig0) # ks \<and> (\<forall>k \<in> set ks. fst k \<noteq> p)
                \<and> procs w1 p = procs w p \<and> now w \<le> now w1))
       \<and> (fst (process_kill v p SIGTERM) = None \<longrightarrow>
            (\<exists>r w' n. killSingle v p 0 = (r, w')
               \<and> kills w' = kills v @ [(p, SIGTERM), (p, SIGKILL)] @ replicate n (p, Sig0)
               \<and> execs w' = execs v
               \<and> (method_r r = ascii ''SIGKILL'' \<or> method_r r = ascii ''SIGTERM'')
               \<and> (method_r r = ascii ''SIGTERM'') =
                   (\<not> running (snd (process_kill v p SIGTERM)) p)
               \<and> (method_r r = ascii ''SIGTERM'' \<longrightarrow> ok r)))
       \<and> (fst (process_kill v p SIGTERM) = Some e \<longrightarrow>
            killSingle v p 0 =
              (if e = ESRCH then
                 \<lparr>pid_r = p, ok = True, method_r = ascii ''already-exited'', message = None,
                   errorCode = None\<rparr>
               else
                 \<lparr>pid_r = p, ok = False, method_r = ascii ''SIGTERM'',
                   message = Some (errnoMessage e p), errorCode = Some (errnoName e)\<rparr>,
               v\<lparr>kills := kills v @ [(p, SIGTERM)]\<rparr>))
       \<and> (fst (process_kill v p SIGTERM) = Some ESRCH) = (isInt32 p \<and> \<not> running v p)
       \<and> (ok (fst (killSingle v p 0)) \<longrightarrow>
            method_r (fst (killSingle v p 0)) = ascii ''SIGKILL''
            \<or> method_r (fst (killSingle v p 0)) = ascii ''SIGTERM''
            \<or> method_r (fst (killSingle v p 0)) = ascii ''already-exited'')
       \<and> (tree options \<noteq> Some True \<longrightarrow>
            (\<exists>r w'. kill w p options = Some (r, w')
               \<and> killSingle (snd (isAlive w p)) p 0 = (r, w')
               \<and> execs w' = execs w
               \<and> (fst (process_kill (snd (isAlive w p)) p SIGTERM) = None \<longrightarrow>
                    (\<exists>n. kills w' = kills w @ [(p, Sig0), (p, SIGTERM), (p, SIGKILL)] @
                                    replicate n (p, Sig0))
                    \<and> (method_r r = ascii ''SIGTERM'') =
                        (\<not> running (snd (process_kill (snd (isAlive w p)) p SIGTERM)) p)
                    \<and> (method_r r = ascii ''SIGTERM'' \<longrightarrow> ok r)
                    \<and> (method_r r = ascii ''SIGKILL'' \<or> method_r r = ascii ''SIGTERM''))
               \<and> (fst (process_kill (snd (isAlive w p)) p SIGTERM) \<noteq> None \<longrightarrow>
                    kills w' = kills w @ [(p, Sig0), (p, SIGTERM)])))"
proof (intro conjI impI)
  have tm: "max 0 (case timeoutMs options of None \<Rightarrow> 0 | Some t \<Rightarrow> t) = 0"
    using assms(2) by auto
  from kill_world [OF assms(1), of options]
  show "kill w p options = None \<and> tree options = Some True
          \<or> (\<exists>w1 ks. kill w p options = Some (killSingle w1 p 0)
                \<and> kills w1 = kills w @ (p, Sig0) # ks \<and> (\<forall>k \<in> set ks. fst k \<noteq> p)
                \<and> procs w1 p = procs w p \<and> now w \<le> now w1)"
  proof
    assume "kill w p options = None \<and> tree options = Some True"
    then show ?thesis by simp
  next
    assume "\<exists>w1. kill w p options =
              Some (killSingle w1 p (max 0 (case timeoutMs options of None \<Rightarrow> 0 | Some t \<Rightarrow> t)))
            \<and> leavesAlone p (snd (isAlive w p)) w1"
    then obtain w1 where k: "kill w p options = Some (killSingle w1 p 0)"
      and l: "leavesAlone p (w\<lparr>kills := kills w @ [(p, Sig0)]\<rparr>) w1"
      by (auto simp: tm isAlive_snd)
    from l obtain ks where ks: "kills w1 = kills w @ (p, Sig0) # ks" "\<forall>k \<in> set ks. fst k \<noteq> p"
      "procs w1 p = procs w p" "now w \<le> now w1"
      by (auto simp: leavesAlone_def)
    then have "kill w p options = Some (killSingle w1 p 0)
                \<and> kills w1 = kills w @ (p, Sig0) # ks \<and> (\<forall>k \<in> set ks. fst k \<noteq> p)
                \<and> procs w1 p = procs w p \<and> now w \<le> now w1"
      using k by simp
    then show ?thesis by blast
  qed
next
  assume "fst (process_kill v p SIGTERM) = None"
  then show "\<exists>r w' n. killSingle v p 0 = (r, w')
               \<and> kills w' = kills v @ [(p, SIGTERM), (p, SIGKILL)] @ replicate n (p, Sig0)
               \<and> execs w' = execs v
               \<and> (method_r r = ascii ''SIGKILL'' \<or> method_r r = ascii ''SIGTERM'')
               \<and> (method_r r = ascii ''SIGTERM'') =
                   (\<not> running (snd (process_kill v p SIGTERM)) p)
               \<and> (method_r r = ascii ''SIGTERM'' \<longrightarrow> ok r)"
    by (rule killSingle_zero_grace_sent) simp
next
  assume "fst (process_kill v p SIGTERM) = Some e"
  then show "killSingle v p 0 =
              (if e = ESRCH then
                 \<lparr>pid_r = p, ok = True, method_r = ascii ''already-exited'', message = None,
                   errorCode = None\<rparr>
               else
                 \<lparr>pid_r = p, ok = False, method_r = ascii ''SIGTERM'',
                   message = Some (errnoMessage e p), errorCode = Some (errnoName e)\<rparr>,
               v\<lparr>kills := kills v @ [(p, SIGTERM)]\<rparr>)"
    by (rule killSingle_not_sent)
next
  show "(fst (process_kill v p SIGTERM) = Some ESRCH) = (isInt32 p \<and> \<not> running v p)"
    by (rule pk_ESRCH_iff)
next
  assume "ok (fst (killSingle v p 0))"
  then show "method_r (fst (killSingle v p 0)) = ascii ''SIGKILL''
            \<or> method_r (fst (killSingle v p 0)) = ascii ''SIGTERM''
            \<or> method_r (fst (killSingle v p 0)) = ascii ''already-exited''"
    using killSingle_methods [of v p 0] by simp
next
  assume t: "tree options \<noteq> Some True"
  from kill_zero_grace [OF assms t]
  show "\<exists>r w'. kill w p options = Some (r, w')
               \<and> killSingle (snd (isAlive w p)) p 0 = (r, w')
               \<and> execs w' = execs w
               \<and> (fst (process_kill (snd (isAlive w p)) p SIGTERM) = None \<longrightarrow>
                    (\<exists>n. kills w' = kills w @ [(p, Sig0), (p, SIGTERM), (p, SIGKILL)] @
                                    replicate n (p, Sig0))
                    \<and> (method_r r = ascii ''SIGTERM'') =
                        (\<not> running (snd (process_kill (snd (isAlive w p)) p SIGTERM)) p)
                    \<and> (method_r r = ascii ''SIGTERM'' \<longrightarrow> ok r)
                    \<and> (method_r r = ascii ''SIGKILL'' \<or> method_r r = ascii ''SIGTERM''))
               \<and> (fst (process_kill (snd (isAlive w p)) p SIGTERM) \<noteq> None \<longrightarrow>
                    kills w' = kills w @ [(p, Sig0), (p, SIGTERM)])" .
qed

theorem zero_grace_escalation_witness:
  "(\<exists>r w' n. kill sampleWorld 4243 (graceOptions (- 5)) = Some (r, w')
     \<and> kills w' = [(4243, Sig0), (4243, SIGTERM), (4243, SIGKILL)] @ replicate n (4243, Sig0)
     \<and> method_r r = ascii ''SIGKILL'')
   \<and> killSingle (sampleWorld\<lparr>procs := Map.empty\<rparr>) 4243 0 =
       (\<lparr>pid_r = 4243, ok = True, method_r = ascii ''already-exited'', message = None,
          errorCode = None\<rparr>,
        sampleWorld\<lparr>procs := Map.empty, kills := [(4243, SIGTERM)]\<rparr>)"
proof -
  have a: "fst (isAlive sampleWorld 4243)" by (simp add: world_eval)
  have o: "timeoutMs (graceOptions (- 5)) = None \<or>
           (\<exists>t. timeoutMs (graceOptions (- 5)) = Some t \<and> t \<le> 0)"
    "tree (graceOptions (- 5)) \<noteq> Some True"
    by (simp_all add: graceOptions_def)
  have s: "fst (process_kill (snd (isAlive sampleWorld 4243)) 4243 SIGTERM) = None"
    "running (snd (process_kill (snd (isAlive sampleWorld 4243)) 4243 SIGTERM)) 4243"
    "kills (snd (isAlive sampleWorld 4243)) = [(4243, Sig0)]"
    by (simp_all add: world_eval)
  have k: "kills sampleWorld = []" by (simp add: sampleWorld_def)
  have g: "fst (process_kill (sampleWorld\<lparr>procs := Map.empty\<rparr>) 4243 SIGTERM) = Some ESRCH"
    by (simp add: world_eval)
  note z = zero_grace_escalation [OF a o(1), of "sampleWorld\<lparr>procs := Map.empty\<rparr>" ESRCH]
  have 1: "\<exists>r w' n. kill sampleWorld 4243 (graceOptions (- 5)) = Some (r, w')
     \<and> kills w' = [(4243, Sig0), (4243, SIGTERM), (4243, SIGKILL)] @ replicate n (4243, Sig0)
     \<and> method_r r = ascii ''SIGKILL''"
    using z [THEN conjunct2, THEN conjunct2, THEN conjunct2, THEN conjunct2, THEN conjunct2,
        THEN mp, OF o(2)] s k sig_names(1)
    by (elim exE conjE) auto
  have 2: "killSingle (sampleWorld\<lparr>procs := Map.empty\<rparr>) 4243 0 =
       (\<lparr>pid_r = 4243, ok = True, method_r = ascii ''already-exited'', message = None,
          errorCode = None\<rparr>,
        sampleWorld\<lparr>procs := Map.empty, kills := [(4243, SIGTERM)]\<rparr>)"
    using z [THEN conjunct2, THEN conjunct2, THEN conjunct1, THEN mp, OF g] k by simp
  show ?thesis using 1 2 by (rule conjI)
qed

text \<open>A successful kill does not always report \<open>SIGKILL\<close> or \<open>SIGTERM\<close>. In tree mode
  the process can end while its descendants are listed: here it is alive at the probe,
  \<open>ps\<close> takes half a second, the process ends after 100 ms, and \<open>kill\<close> reports
  success with the method \<open>already-exited\<close>: SIGTERM found no process, and no SIGKILL
  was sent.\<close>

theorem zero_grace_escalation_counterexample:
  "fst (isAlive slowPsWorld 4245)
   \<and> (timeoutMs treeOptions = None \<or> (\<exists>t. timeoutMs treeOptions = Some t \<and> t \<le> 0))
   \<and> map_option fst (kill slowPsWorld 4245 treeOptions) =
       Some \<lparr>pid_r = 4245, ok = True, method_r = ascii ''already-exited'', message = None,
              errorCode = None\<rparr>
   \<and> map_option (\<lambda>r. kills (snd r)) (kill slowPsWorld 4245 treeOptions) =
       Some [(4245, Sig0), (4245, SIGTERM)]
   \<and> map_option (\<lambda>r. now (snd r)) (kill slowPsWorld 4245 treeOptions) = Some 500"
proof -
  define w0 where "w0 = slowPsWorld\<lparr>kills := [(4245, Sig0)]\<rparr>"
  define w1 where "w1 = w0\<lparr>now := 500,
      execs := [(ascii ''ps'', [ascii ''-o'', ascii ''pid='', ascii ''--ppid'', String_of 4245],
                 Some 1000)]\<rparr>"
  have a: "isAlive slowPsWorld 4245 = (True, w0)"
    by (simp add: w0_def slowPsWorld_def mortalProc_def world_eval)
  have c: "listChildren w0 4245 = Some (Inr [], w1)"
    by (simp add: listChildren_def execFile_def sleep_def w0_def w1_def slowPsWorld_def
        splitLines_def parseInt_def trim_def Let_def)
  have "descendantsLoop (w0, {}, [], [4245]) = descendantsLoop (w1, {4245}, [], [])"
    by (subst descendantsLoop.simps) (simp add: descendantsStep_def c)
  also have "\<dots> = Some (Inr [], w1)"
    by (subst descendantsLoop.simps) (simp add: descendantsStep_def)
  finally have d: "listDescendants w0 4245 = Some (Inr [], w1)"
    by (simp add: listDescendants_def)
  have k: "kill slowPsWorld 4245 treeOptions = Some (killSingle w1 4245 0)"
    by (simp add: kill_def a d treeOptions_def killChildren_def)
  have s: "killSingle w1 4245 0 =
      (\<lparr>pid_r = 4245, ok = True, method_r = ascii ''already-exited'', message = None,
         errorCode = None\<rparr>, w1\<lparr>kills := kills w1 @ [(4245, SIGTERM)]\<rparr>)"
    by (simp add: killSingle_def process_kill_def running_def isInt32_def Let_def w1_def w0_def
        slowPsWorld_def mortalProc_def)
  have t: "timeoutMs treeOptions = None" by (simp add: treeOptions_def)
  show ?thesis
    by (simp add: a k s t) (simp add: w1_def w0_def)
qed

section \<open>Properties of the commands\<close>

lemma startsWith_iff: "startsWith s pat = (\<exists>b. s = pat @ b)"
  by (induction s pat rule: startsWith.induct) auto

lemma includes_str_iff: "includes_str s pat = (\<exists>a b. s = a @ pat @ b)"
proof (induction s)
  case Nil
  then show ?case by auto
next
  case (Cons c cs)
  show ?case
  proof
    assume "includes_str (c # cs) pat"
    then consider "startsWith (c # cs) pat" | "includes_str cs pat" by auto
    then show "\<exists>a b. c # cs = a @ pat @ b"
    proof cases
      case 1
      then obtain b where "c # cs = pat @ b" by (auto simp: startsWith_iff)
      then have "c # cs = [] @ pat @ b" by simp
      then show ?thesis by blast
    next
      case 2
      with Cons.IH obtain a b where "cs = a @ pat @ b" by blast
      then have "c # cs = (c # a) @ pat @ b" by simp
      then show ?thesis by blast
    qed
  next
    assume "\<exists>a b. c # cs = a @ pat @ b"
    then obtain a b where ab: "c # cs = a @ pat @ b" by blast
    show "includes_str (c # cs) pat"
    proof (cases a)
      case Nil
      with ab have "startsWith (c # cs) pat" by (auto simp: startsWith_iff)
      then show ?thesis by simp
    next
      case (Cons x a')
      with ab have "cs = a' @ pat @ b" by simp
      with Cons.IH have "includes_str cs pat" by blast
      then show ?thesis by simp
    qed
  qed
qed

lemma dropWhile_keeps:
  assumes "pat \<noteq> []" "\<not> P (hd pat)"
  shows "\<exists>a'. dropWhile P (a @ pat @ b) = a' @ pat @ b"
proof (induction a)
  case Nil
  from assms obtain x xs where "pat = x # xs" "\<not> P x" by (cases pat) auto
  then have "dropWhile P ([] @ pat @ b) = [] @ pat @ b" by simp
  then show ?case by blast
next
  case (Cons x a)
  show ?case
  proof (cases "P x")
    case True
    with Cons show ?thesis by simp
  next
    case False
    then have "dropWhile P ((x # a) @ pat @ b) = (x # a) @ pat @ b" by simp
    then show ?thesis by blast
  qed
qed

lemma trim_keeps:
  assumes "includes_str s pat" "pat \<noteq> []" "\<not> isSpace (hd pat)" "\<not> isSpace (last pat)"
  shows "includes_str (trim s) pat"
proof -
  from assms(1) obtain a b where "s = a @ pat @ b" by (auto simp: includes_str_iff)
  with dropWhile_keeps [of pat isSpace a b, OF assms(2,3)] obtain a' where
    1: "dropWhile isSpace s = a' @ pat @ b" by auto
  have r: "rev pat \<noteq> []" "\<not> isSpace (hd (rev pat))"
    using assms(2,4) by (simp_all add: hd_rev)
  from dropWhile_keeps [of "rev pat" isSpace "rev b" "rev a'", OF r] obtain b' where
    2: "dropWhile isSpace (rev b @ rev pat @ rev a') = b' @ rev pat @ rev a'" by auto
  have "trim s = a' @ pat @ rev b'"
    using 1 2 by (simp add: trim_def)
  then show ?thesis by (auto simp: includes_str_iff)
qed

lemma successToken_ends:
  "successToken \<noteq> []" "\<not> isSpace (hd successToken)" "\<not> isSpace (last successToken)"
  by (simp_all add: successToken_def isSpace_def)

lemma classify_success:
  assumes "includes_str (stdout res @ 10 # stderr res) successToken"
  shows "classifyTaskkill as res =
     \<lparr>pid_r = parsePid as, ok = True, method_r = ascii ''taskkill'', message = None,
      errorCode = None\<rparr>"
proof -
  have "matchesSuccess (trim (stdout res @ 10 # stderr res))"
    using trim_keeps [OF assms successToken_ends] by (simp add: matchesSuccess_def)
  then show ?thesis by (simp add: classifyTaskkill_def Let_def)
qed

lemma classify_exit_zero:
  assumes "code res = Some 0" "\<not> matchesAccessDenied (trim (stdout res @ 10 # stderr res))"
  shows "ok (classifyTaskkill as res)"
  using assms by (simp add: classifyTaskkill_def Let_def)

lemma execFile_resolves:
  assumes "programs w c as = Exits d out err ec sg" "int d < t"
  shows "execFile w c as (Some t) =
     Some (Inr \<lparr>cmd = c, args = as, stdout = out, stderr = err, code = ec, signal = sg\<rparr>,
           sleep (int d) (w\<lparr>execs := execs w @ [(c, as, Some t)]\<rparr>))"
  using assms by (simp add: execFile_def Let_def)

text \<open>
  Claim C9 (locale-tolerant success parsing). The non-English success token that
  \<open>runTaskkill\<close> knows is the Chinese word of its first pattern, \<open>successToken\<close>. A
  \<open>taskkill\<close> run whose combined output (stdout, a line feed, stderr) contains it is
  classified \<open>ok\<close> with method \<open>taskkill\<close>, whatever else the output holds (an ASCII
  \<open>SUCCESS\<close> or none) and whatever the exit code; so \<open>kill\<close> of the Windows killer
  returns \<open>ok\<close> when its first \<open>taskkill\<close> run ends within the timeout with such an
  output. An output in any other language is classified by the exit code: with exit
  code 0 and no access-denied phrase the run is \<open>ok\<close> as well.
\<close>

theorem taskkill_success_token:
  "(includes_str (stdout res @ 10 # stderr res) successToken \<longrightarrow>
      classifyTaskkill as res =
        \<lparr>pid_r = parsePid as, ok = True, method_r = ascii ''taskkill'', message = None,
         errorCode = None\<rparr>)
   \<and> (fst (isAlive w p) \<and>
       programs w (ascii ''taskkill'') [ascii ''/PID'', String_of p, ascii ''/T''] =
         Exits d out err ec sg \<and> d < 5000 \<and>
       includes_str (out @ 10 # err) successToken \<longrightarrow>
       (\<exists>w'. WindowsKiller_kill w p options =
               Some (\<lparr>pid_r = p, ok = True, method_r = ascii ''taskkill'', message = None,
                      errorCode = None\<rparr>, w')))
   \<and> (code res = Some 0 \<and> \<not> matchesAccessDenied (trim (stdout res @ 10 # stderr res)) \<longrightarrow>
       ok (classifyTaskkill as res))"
proof (intro conjI impI)
  assume "includes_str (stdout res @ 10 # stderr res) successToken"
  then show "classifyTaskkill as res =
        \<lparr>pid_r = parsePid as, ok = True, method_r = ascii ''taskkill'', message = None,
         errorCode = None\<rparr>"
    by (rule classify_success)
next
  assume a: "fst (isAlive w p) \<and>
       programs w (ascii ''taskkill'') [ascii ''/PID'', String_of p, ascii ''/T''] =
         Exits d out err ec sg \<and> d < 5000 \<and>
       includes_str (out @ 10 # err) successToken"
  obtain w0 where w0: "isAlive w p = (True, w0)" "programs w0 = programs w"
    using a by (cases "isAlive w p")
      (auto simp: isAlive_def process_kill_def Let_def split: option.splits if_splits Errno.splits)
  let ?as = "[ascii ''/PID'', String_of p, ascii ''/T'']"
  let ?res = "\<lparr>cmd = ascii ''taskkill'', args = ?as, stdout = out, stderr = err, code = ec,
               signal = sg\<rparr>"
  have e: "execFile w0 (ascii ''taskkill'') ?as (Some 5000) =
     Some (Inr ?res, sleep (int d) (w0\<lparr>execs := execs w0 @ [(ascii ''taskkill'', ?as, Some 5000)]\<rparr>))"
    by (rule execFile_resolves) (use a w0(2) in auto)
  have c: "ok (classifyTaskkill ?as ?res)"
    using classify_success [of ?res ?as] a by simp
  show "\<exists>w'. WindowsKiller_kill w p options =
               Some (\<lparr>pid_r = p, ok = True, method_r = ascii ''taskkill'', message = None,
                      errorCode = None\<rparr>, w')"
    using c by (simp add: WindowsKiller_kill_def w0(1) runTaskkill_def e Let_def)
next
  assume "code res = Some 0 \<and> \<not> matchesAccessDenied (trim (stdout res @ 10 # stderr res))"
  then show "ok (classifyTaskkill as res)" by (simp add: classify_exit_zero)
qed

theorem taskkill_success_token_witness:
  "classifyTaskkill [ascii ''/PID'', ascii ''4243'', ascii ''/T'']
     \<lparr>cmd = ascii ''taskkill'', args = [ascii ''/PID'', ascii ''4243'', ascii ''/T''],
      stdout = successToken @ ascii '': PID 4243'', stderr = [], code = Some 1, signal = None\<rparr> =
     \<lparr>pid_r = parsePid [ascii ''/PID'', ascii ''4243'', ascii ''/T''], ok = True,
      method_r = ascii ''taskkill'', message = None, errorCode = None\<rparr>
   \<and> (\<exists>w'. WindowsKiller_kill taskkillWorld 4243 (graceOptions 0) =
             Some (\<lparr>pid_r = 4243, ok = True, method_r = ascii ''taskkill'', message = None,
                    errorCode = None\<rparr>, w'))"
proof -
  have i: "includes_str ((successToken @ ascii '': PID 4243'') @ 10 # []) successToken"
    by (simp add: successToken_def ascii_def)
  have a: "fst (isAlive taskkillWorld 4243)"
    by (simp add: taskkillWorld_def world_eval)
  have p: "programs taskkillWorld (ascii ''taskkill'') [ascii ''/PID'', String_of 4243, ascii ''/T''] =
       Exits 40 (successToken @ ascii '': PID 4243'') [] (Some 0) None"
    by (simp add: taskkillWorld_def sampleWorld_def)
  show ?thesis
    using taskkill_success_token [of
        "\<lparr>cmd = ascii ''taskkill'', args = [ascii ''/PID'', ascii ''4243'', ascii ''/T''],
          stdout = successToken @ ascii '': PID 4243'', stderr = [], code = Some 1, signal = None\<rparr>"
        "[ascii ''/PID'', ascii ''4243'', ascii ''/T'']" taskkillWorld 4243 40
        "successToken @ ascii '': PID 4243''" "[]" "Some 0" None "graceOptions 0"]
      i a p
    by simp
qed
















end
